theory Spec2Isabelle
  imports Complex_Main "HOL-Library.Signed_Division"
begin

section \<open>The instrumented audio mutex of audio\_utils/mutex.h\<close>

text \<open>
  The model follows \<^verbatim>\<open>src/audio_utils/include/audio_utils/mutex.h\<close>.
  A mutex handle (\<^verbatim>\<open>void*\<close>) is a natural number, \<open>0\<close> being \<^verbatim>\<open>nullptr\<close>.
  A capability order (\<^verbatim>\<open>enum class MutexOrder : uint32_t\<close>) is the natural number
  of the enumerator; the code only compares orders.
  The counters of type \<^verbatim>\<open>size_t\<close> and \<^verbatim>\<open>uint64_t\<close> are natural numbers:
  they are only ever stepped by one, so a wrap-around needs \<open>2^64\<close> operations and is
  left out of the model.
  A thread id (\<^verbatim>\<open>pid_t\<close>) and a time in nanoseconds (\<^verbatim>\<open>int64_t\<close>) are integers.
  Isabelle reserves the names that end in an underscore, so a member \<^verbatim>\<open>x_\<close> of the
  source is the field \<open>x_f\<close> here.
\<close>

subsection \<open>atomic\_stack\<close>

type_synonym item_payload_pair_t = "nat \<times> nat"

text \<open>
  \<^verbatim>\<open>atomic_stack<Item, Payload, N>\<close>: the members \<^verbatim>\<open>top_\<close>, \<^verbatim>\<open>true_top_\<close> and
  \<^verbatim>\<open>pairs_[N]\<close>. The capacity \<open>N\<close> is a template parameter, here an argument of
  the operations that use it; the array is a list of length \<open>N\<close>.
\<close>

record atomic_stack =
  top_f :: nat
  true_top_f :: nat
  pairs_f :: "item_payload_pair_t list"

text \<open>The zero-initialised static member \<^verbatim>\<open>invalid_\<close>, returned by \<^verbatim>\<open>invalid()\<close>.\<close>

definition invalid :: item_payload_pair_t where
  "invalid = (0, 0)"

text \<open>A default-constructed stack: both counters zero, every slot zero-initialised.\<close>

definition atomic_stack_init :: "nat \<Rightarrow> atomic_stack" where
  "atomic_stack_init N = \<lparr>top_f = 0, true_top_f = 0, pairs_f = replicate N invalid\<rparr>"

text \<open>
  \<^verbatim>\<open>push\<close>: the location is the physical top, or \<open>N - 1\<close> with no increment when
  the physical top has reached \<open>N\<close>. (For \<open>N = 0\<close> the C++ \<open>N - 1\<close> wraps; the
  theorems below take \<open>0 < N\<close>.)
\<close>

definition push :: "nat \<Rightarrow> nat \<Rightarrow> nat \<Rightarrow> atomic_stack \<Rightarrow> atomic_stack" where
  "push N item payload s =
     (let location = (if top_f s \<ge> N then N - 1 else top_f s);
          increment = (if top_f s \<ge> N then 0 else 1)
      in s\<lparr>pairs_f := (pairs_f s)[location := (item, payload)],
            true_top_f := true_top_f s + 1,
            top_f := top_f s + increment\<rparr>)"

text \<open>
  The scan of \<^verbatim>\<open>remove\<close>: \<^verbatim>\<open>for (size_t i = top_; i > 0; ) if (item == pairs_[--i].first)\<close>.
  The result is the index of the first match from the top, if any.
\<close>

fun find_item :: "nat \<Rightarrow> item_payload_pair_t list \<Rightarrow> nat \<Rightarrow> nat option" where
  "find_item item ps 0 = None"
| "find_item item ps (Suc i) =
     (if item = fst (ps ! i) then Some i else find_item item ps i)"

text \<open>
  The shift of \<^verbatim>\<open>remove\<close>:
  \<^verbatim>\<open>while (i < limit) { pairs_[i] = pairs_[i + 1]; ++i; }\<close>.
\<close>

function shift_down :: "item_payload_pair_t list \<Rightarrow> nat \<Rightarrow> nat \<Rightarrow> item_payload_pair_t list" where
  "shift_down ps i limit =
     (if i < limit then shift_down (ps[i := ps ! (i + 1)]) (i + 1) limit else ps)"
  by pat_completeness auto
termination
  by (relation "measure (\<lambda>(ps, i, limit). limit - i)") auto

declare shift_down.simps [simp del]

text \<open>\<^verbatim>\<open>remove\<close> returns its boolean result and the stack it leaves.\<close>

definition remove :: "nat \<Rightarrow> atomic_stack \<Rightarrow> bool \<times> atomic_stack" where
  "remove item s =
     (if true_top_f s = 0 then (False, s)
      else
        let s1 = s\<lparr>true_top_f := true_top_f s - 1\<rparr> in
        case find_item item (pairs_f s1) (top_f s1) of
          Some i \<Rightarrow>
            (True, s1\<lparr>pairs_f := shift_down (pairs_f s1) i (top_f s1 - 1),
                      top_f := top_f s1 - 1\<rparr>)
        | None \<Rightarrow>
            if true_top_f s1 \<ge> top_f s1 then (True, s1)
            else (False, s1\<lparr>true_top_f := top_f s1\<rparr>))"

text \<open>
  \<^verbatim>\<open>top(offset)\<close> computes \<^verbatim>\<open>top_ - offset\<close> in \<^verbatim>\<open>ssize_t\<close> and returns
  \<^verbatim>\<open>pairs_[top - 1]\<close> when \<open>0 < top \<le> N\<close>, else \<^verbatim>\<open>invalid\<close>.
\<close>

definition top_stack :: "nat \<Rightarrow> atomic_stack \<Rightarrow> nat \<Rightarrow> item_payload_pair_t" where
  "top_stack N s offset =
     (let t = int (top_f s) - int offset
      in if t > 0 \<and> t \<le> int N then pairs_f s ! (nat t - 1) else invalid)"

definition bottom :: "atomic_stack \<Rightarrow> nat \<Rightarrow> item_payload_pair_t" where
  "bottom s offset = (if offset < top_f s then pairs_f s ! offset else invalid)"

definition stack_size :: "atomic_stack \<Rightarrow> nat" where
  "stack_size s = top_f s"

definition true_size :: "atomic_stack \<Rightarrow> nat" where
  "true_size s = true_top_f s"

text \<open>The tracked entries from bottom to top: the slots below the physical top.\<close>

definition held :: "atomic_stack \<Rightarrow> item_payload_pair_t list" where
  "held s = take (top_f s) (pairs_f s)"

text \<open>
  The stack as an array of \<open>N\<close> slots with the physical top inside it; every operation
  keeps it (see \<open>push_stack_ok\<close>, \<open>remove_stack_ok\<close>).
\<close>

definition stack_ok :: "nat \<Rightarrow> atomic_stack \<Rightarrow> bool" where
  "stack_ok N s \<longleftrightarrow> length (pairs_f s) = N \<and> top_f s \<le> N"

text \<open>A stack operation of the owning thread, and a run of them from the empty stack.\<close>

datatype stack_op = Push nat nat | Remove nat

fun stack_step :: "nat \<Rightarrow> atomic_stack \<Rightarrow> stack_op \<Rightarrow> atomic_stack" where
  "stack_step N s (Push item payload) = push N item payload s"
| "stack_step N s (Remove item) = snd (remove item s)"

definition stack_run :: "nat \<Rightarrow> stack_op list \<Rightarrow> atomic_stack" where
  "stack_run N ops = foldl (stack_step N) (atomic_stack_init N) ops"


subsection \<open>thread\_mutex\_info\<close>

datatype other_wait_reason_t = reason_none | reason_cv | reason_join | reason_queue

definition kInvalidTid :: int where
  "kInvalidTid = - 1"

record other_wait_info =
  wait_tid_f :: int
  wait_reason_f :: other_wait_reason_t
  wait_order_f :: nat

record thread_mutex_info =
  tid_f :: int
  mutex_wait_f :: nat
  other_wait_info_f :: other_wait_info
  mutexes_held_f :: atomic_stack

text \<open>
  The constructor \<^verbatim>\<open>thread_mutex_info(pid_t tid)\<close> with the default member
  initialisers; \<^verbatim>\<open>(Order)-1\<close> is \<open>2^32 - 1\<close>.
\<close>

definition thread_mutex_info_init :: "nat \<Rightarrow> int \<Rightarrow> thread_mutex_info" where
  "thread_mutex_info_init N tid =
     \<lparr>tid_f = tid, mutex_wait_f = 0,
      other_wait_info_f =
        \<lparr>wait_tid_f = kInvalidTid, wait_reason_f = reason_none, wait_order_f = 4294967295\<rparr>,
      mutexes_held_f = atomic_stack_init N\<rparr>"

definition reset_waiter :: "nat \<Rightarrow> thread_mutex_info \<Rightarrow> thread_mutex_info" where
  "reset_waiter waiter info = info\<lparr>mutex_wait_f := waiter\<rparr>"

text \<open>
  The loop of \<^verbatim>\<open>check_held\<close>, from offset \<open>i\<close> below the top:
  a smaller order ends the scan, a greater order or the same handle is the conflict,
  an equal order with another handle is passed over.
\<close>

function check_held_loop ::
  "nat \<Rightarrow> atomic_stack \<Rightarrow> nat \<Rightarrow> nat \<Rightarrow> nat \<Rightarrow> nat \<Rightarrow> item_payload_pair_t" where
  "check_held_loop N st mutex ord sz i =
     (if i < sz then
        (let t = top_stack N st i; top_order = snd t in
         if top_order < ord then invalid
         else if top_order > ord then t
         else if fst t = mutex then t
         else check_held_loop N st mutex ord sz (i + 1))
      else invalid)"
  by pat_completeness auto
termination
  by (relation "measure (\<lambda>(N, st, mutex, ord, sz, i). sz - i)") auto

declare check_held_loop.simps [simp del]

definition check_held :: "nat \<Rightarrow> nat \<Rightarrow> nat \<Rightarrow> thread_mutex_info \<Rightarrow> item_payload_pair_t" where
  "check_held N mutex ord info =
     check_held_loop N (mutexes_held_f info) mutex ord (stack_size (mutexes_held_f info)) 0"

definition push_held :: "nat \<Rightarrow> nat \<Rightarrow> nat \<Rightarrow> thread_mutex_info \<Rightarrow> thread_mutex_info" where
  "push_held N mutex ord info =
     info\<lparr>mutexes_held_f := push N mutex ord (mutexes_held_f info)\<rparr>"

definition remove_held :: "nat \<Rightarrow> thread_mutex_info \<Rightarrow> bool \<times> thread_mutex_info" where
  "remove_held mutex info =
     (let (success, st) = remove mutex (mutexes_held_f info)
      in (success, info\<lparr>mutexes_held_f := st\<rparr>))"

subsection \<open>mutex\_stat and the configuration\<close>

text \<open>
  \<^verbatim>\<open>mutex_stat<uint64_t, double>\<close>. The two accumulators are \<^verbatim>\<open>double\<close> in the
  source and real numbers here: rounding is not modelled, the properties below only
  depend on whether \<^verbatim>\<open>add_wait_time\<close> is called.
\<close>

record mutex_stat =
  locks :: nat
  unlocks :: nat
  waits :: nat
  wait_sum_ns :: real
  wait_sumsq_ns :: real

definition mutex_stat_init :: mutex_stat where
  "mutex_stat_init = \<lparr>locks = 0, unlocks = 0, waits = 0, wait_sum_ns = 0, wait_sumsq_ns = 0\<rparr>"

definition add_wait_time :: "int \<Rightarrow> mutex_stat \<Rightarrow> mutex_stat" where
  "add_wait_time wait_ns st =
     (let value_ns = real_of_int wait_ns
      in st\<lparr>wait_sum_ns := wait_sum_ns st + value_ns,
             wait_sumsq_ns := wait_sumsq_ns st + value_ns * value_ns\<rparr>)"

text \<open>The constants of \<^verbatim>\<open>AudioMutexAttributes\<close>.\<close>

definition order_size :: nat where
  "order_size = 29"

definition mutex_stack_depth :: nat where
  "mutex_stack_depth = 16"

definition abort_on_order_check :: bool where
  "abort_on_order_check = True"

definition abort_on_recursion_check :: bool where
  "abort_on_recursion_check = True"

definition abort_on_invalid_unlock :: bool where
  "abort_on_invalid_unlock = True"

subsection \<open>mutex\_impl\<close>

text \<open>
  A mutex is its address (the handle \<^verbatim>\<open>&m\<close> that the instrumentation stores) and its
  constant member \<^verbatim>\<open>order_\<close>; \<^verbatim>\<open>stat_\<close> is the entry of the statistics array at
  that order. The address of an object is not null, and the constructor is fatal for an
  order outside the enumeration.
\<close>

record mutex =
  handle :: nat
  order_f :: nat

definition valid_mutex :: "mutex \<Rightarrow> bool" where
  "valid_mutex m \<longleftrightarrow> handle m \<noteq> 0 \<and> order_f m < order_size"

text \<open>
  The calls to the operating system that a mutex operation makes, in the order made:
  \<^verbatim>\<open>m_.try_lock()\<close>, \<^verbatim>\<open>m_.lock()\<close>, \<^verbatim>\<open>m_.unlock()\<close> and
  \<^verbatim>\<open>pthread_mutex_timedlock\<close> with the fields \<^verbatim>\<open>tv_sec\<close>, \<^verbatim>\<open>tv_nsec\<close>
  of its deadline.
\<close>

datatype os_call = OsTryLock nat | OsLock nat | OsUnlock nat | OsTimedLock nat int int

text \<open>
  What the process holds: the per-order statistics array
  (\<^verbatim>\<open>get_mutex_stat_array()\<close>), the thread-local \<^verbatim>\<open>thread_mutex_info\<close> of each
  thread that has used a mutex (\<^verbatim>\<open>get_thread_mutex_info()\<close>, created and registered
  on first use), and the log of the calls to the operating system.
\<close>

record world =
  stat_array :: "mutex_stat list"
  tminfo :: "int \<Rightarrow> thread_mutex_info option"
  os_calls :: "os_call list"

definition world_init :: world where
  "world_init =
     \<lparr>stat_array = replicate order_size mutex_stat_init, tminfo = (\<lambda>tid. None), os_calls = []\<rparr>"

text \<open>
  What one call observes from outside the process: the calling thread
  (\<^verbatim>\<open>gettid_wrapper()\<close>), whether \<^verbatim>\<open>m_.try_lock()\<close> succeeds, the return code of
  \<^verbatim>\<open>pthread_mutex_timedlock\<close>, and the clock readings
  \<^verbatim>\<open>systemTime(SYSTEM_TIME_REALTIME)\<close> and \<^verbatim>\<open>systemTime()\<close> at the construction
  and at the destruction of the \<^verbatim>\<open>lock_scoped_stat_enabled\<close> object. A blocking
  \<^verbatim>\<open>m_.lock()\<close> is taken to return: an operation in a run is a completed call.
\<close>

record env =
  caller :: int
  try_lock_ok :: bool
  timedlock_rc :: int
  now_realtime :: int
  time_enter :: int
  time_leave :: int

datatype fatal = InvalidMutexOrder | RecursiveMutexAccess | InvalidMutexUnlock

definition get_thread_mutex_info :: "int \<Rightarrow> world \<Rightarrow> thread_mutex_info \<times> world" where
  "get_thread_mutex_info tid w =
     (case tminfo w tid of
        Some info \<Rightarrow> (info, w)
      | None \<Rightarrow>
          (let info = thread_mutex_info_init mutex_stack_depth tid
           in (info, w\<lparr>tminfo := (tminfo w)(tid \<mapsto> info)\<rparr>)))"

text \<open>\<^verbatim>\<open>get_thread_mutex_info()->f(...)\<close> for a member function that updates the descriptor.\<close>

definition update_thread_mutex_info ::
  "int \<Rightarrow> (thread_mutex_info \<Rightarrow> thread_mutex_info) \<Rightarrow> world \<Rightarrow> world" where
  "update_thread_mutex_info tid f w =
     (let (info, w1) = get_thread_mutex_info tid w
      in w1\<lparr>tminfo := (tminfo w1)(tid \<mapsto> f info)\<rparr>)"

text \<open>An update of \<^verbatim>\<open>m.stat_\<close>, the entry of the array at the order of the mutex.\<close>

definition update_stat :: "mutex \<Rightarrow> (mutex_stat \<Rightarrow> mutex_stat) \<Rightarrow> world \<Rightarrow> world" where
  "update_stat m f w =
     w\<lparr>stat_array := (stat_array w)[order_f m := f (stat_array w ! order_f m)]\<rparr>"

definition os_call_made :: "os_call \<Rightarrow> world \<Rightarrow> world" where
  "os_call_made c w = w\<lparr>os_calls := os_calls w @ [c]\<rparr>"

text \<open>
  \<^verbatim>\<open>lock_scoped_stat_enabled::pre_lock\<close>: no conflict when the handle of the pair from
  \<^verbatim>\<open>check_held\<close> is null; else fatal for a greater stored order, then for an equal one.
\<close>

definition pre_lock :: "mutex \<Rightarrow> int \<Rightarrow> world \<Rightarrow> fatal + world" where
  "pre_lock m tid w =
     (if \<not> abort_on_order_check \<and> \<not> abort_on_recursion_check then Inr w
      else
        let (info, w1) = get_thread_mutex_info tid w;
            p = check_held mutex_stack_depth (handle m) (order_f m) info
        in if fst p = 0 then Inr w1
           else
             let p_order = snd p; m_order = order_f m
             in if abort_on_order_check \<and> p_order > m_order then Inl InvalidMutexOrder
                else if abort_on_recursion_check \<and> p_order = m_order then Inl RecursiveMutexAccess
                else Inr w1)"

definition post_lock :: "mutex \<Rightarrow> int \<Rightarrow> world \<Rightarrow> world" where
  "post_lock m tid w =
     update_thread_mutex_info tid (push_held mutex_stack_depth (handle m) (order_f m))
       (update_stat m (\<lambda>st. st\<lparr>locks := locks st + 1\<rparr>) w)"

definition pre_unlock :: "mutex \<Rightarrow> int \<Rightarrow> world \<Rightarrow> fatal + world" where
  "pre_unlock m tid w =
     (let w1 = update_stat m (\<lambda>st. st\<lparr>unlocks := unlocks st + 1\<rparr>) w;
          (info, w2) = get_thread_mutex_info tid w1;
          (success, info') = remove_held (handle m) info
      in if abort_on_invalid_unlock \<and> \<not> success then Inl InvalidMutexUnlock
         else Inr (w2\<lparr>tminfo := (tminfo w2)(tid \<mapsto> info')\<rparr>))"

text \<open>
  The constructor of \<^verbatim>\<open>lock_scoped_stat_enabled\<close> (\<^verbatim>\<open>++waits\<close>, then
  \<^verbatim>\<open>reset_waiter(&mutex_)\<close>) and its destructor, which adds the wait time unless
  \<^verbatim>\<open>ignoreWaitTime()\<close> has set \<^verbatim>\<open>discard_wait_time_\<close>, then clears the waiter.
\<close>

definition lock_scoped_stat_ctor :: "mutex \<Rightarrow> int \<Rightarrow> world \<Rightarrow> world" where
  "lock_scoped_stat_ctor m tid w =
     update_thread_mutex_info tid (reset_waiter (handle m))
       (update_stat m (\<lambda>st. st\<lparr>waits := waits st + 1\<rparr>) w)"

definition lock_scoped_stat_dtor :: "mutex \<Rightarrow> int \<Rightarrow> bool \<Rightarrow> int \<Rightarrow> world \<Rightarrow> world" where
  "lock_scoped_stat_dtor m tid discard_wait_time wait_ns w =
     update_thread_mutex_info tid (reset_waiter 0)
       (if \<not> discard_wait_time then update_stat m (add_wait_time wait_ns) w else w)"

text \<open>
  Modelled from the spec: \<^verbatim>\<open>safe_add_sat\<close> of \<^verbatim>\<open>audio_utils/safe_math.h\<close>, which is
  not among the sources. The spec gives the deadline as now plus timeout; the sum is
  kept inside the range of \<^verbatim>\<open>int64_t\<close>, as the name of the function says.
\<close>

definition safe_add_sat :: "int \<Rightarrow> int \<Rightarrow> int" where
  "safe_add_sat a b = max (- (2 ^ 63)) (min (2 ^ 63 - 1) (a + b))"

text \<open>\<^verbatim>\<open>mutex_impl::lock\<close>.\<close>

definition lock :: "mutex \<Rightarrow> env \<Rightarrow> world \<Rightarrow> fatal + world" where
  "lock m e w =
     (case pre_lock m (caller e) w of
        Inl f \<Rightarrow> Inl f
      | Inr w1 \<Rightarrow>
          let w2 = os_call_made (OsTryLock (handle m)) w1;
              w3 = (if \<not> try_lock_ok e then
                      lock_scoped_stat_dtor m (caller e) False (time_leave e - time_enter e)
                        (os_call_made (OsLock (handle m))
                          (lock_scoped_stat_ctor m (caller e) w2))
                    else w2)
          in Inr (post_lock m (caller e) w3))"

text \<open>\<^verbatim>\<open>mutex_impl::unlock\<close>.\<close>

definition unlock :: "mutex \<Rightarrow> env \<Rightarrow> world \<Rightarrow> fatal + world" where
  "unlock m e w =
     (case pre_unlock m (caller e) w of
        Inl f \<Rightarrow> Inl f
      | Inr w1 \<Rightarrow> Inr (os_call_made (OsUnlock (handle m)) w1))"

text \<open>
  \<^verbatim>\<open>mutex_impl::try_lock(timeout_ns)\<close>. The C++ \<^verbatim>\<open>/\<close> and \<^verbatim>\<open>%\<close> on
  \<^verbatim>\<open>int64_t\<close> truncate towards zero (\<open>sdiv\<close>, \<open>smod\<close>).
\<close>

definition try_lock :: "mutex \<Rightarrow> int \<Rightarrow> env \<Rightarrow> world \<Rightarrow> fatal + (bool \<times> world)" where
  "try_lock m timeout_ns e w =
     (case pre_lock m (caller e) w of
        Inl f \<Rightarrow> Inl f
      | Inr w1 \<Rightarrow>
          if timeout_ns \<le> 0 then
            (let w2 = os_call_made (OsTryLock (handle m)) w1
             in if \<not> try_lock_ok e then Inr (False, w2)
                else Inr (True, post_lock m (caller e) w2))
          else
            (let deadline_ns = safe_add_sat timeout_ns (now_realtime e);
                 w2 = lock_scoped_stat_ctor m (caller e) w1;
                 w3 = os_call_made
                        (OsTimedLock (handle m) (deadline_ns sdiv 1000000000)
                           (deadline_ns smod 1000000000)) w2
             in if timedlock_rc e \<noteq> 0 then
                  Inr (False,
                       lock_scoped_stat_dtor m (caller e) True (time_leave e - time_enter e) w3)
                else
                  Inr (True,
                       post_lock m (caller e)
                         (lock_scoped_stat_dtor m (caller e) False
                            (time_leave e - time_enter e) w3))))"

text \<open>A completed call on an instrumented mutex, and a run of calls that stops at a fatal one.\<close>

datatype mutex_op = Lock mutex env | Unlock mutex env | TryLock mutex int env

fun mutex_of :: "mutex_op \<Rightarrow> mutex" where
  "mutex_of (Lock m e) = m"
| "mutex_of (Unlock m e) = m"
| "mutex_of (TryLock m timeout_ns e) = m"

fun mutex_step :: "world \<Rightarrow> mutex_op \<Rightarrow> fatal + world" where
  "mutex_step w (Lock m e) = lock m e w"
| "mutex_step w (Unlock m e) = unlock m e w"
| "mutex_step w (TryLock m timeout_ns e) =
     (case try_lock m timeout_ns e w of Inl f \<Rightarrow> Inl f | Inr (locked, w') \<Rightarrow> Inr w')"

fun mutex_run :: "world \<Rightarrow> mutex_op list \<Rightarrow> fatal + world" where
  "mutex_run w [] = Inr w"
| "mutex_run w (x # xs) =
     (case mutex_step w x of Inl f \<Rightarrow> Inl f | Inr w' \<Rightarrow> mutex_run w' xs)"

text \<open>A timed \<^verbatim>\<open>try_lock\<close> whose \<^verbatim>\<open>pthread_mutex_timedlock\<close> fails.\<close>

fun timed_out :: "mutex_op \<Rightarrow> bool" where
  "timed_out (TryLock m timeout_ns e) = (0 < timeout_ns \<and> timedlock_rc e \<noteq> 0)"
| "timed_out (Lock m e) = False"
| "timed_out (Unlock m e) = False"

text \<open>The held stack of a thread, empty before its first mutex operation.\<close>

definition held_of :: "world \<Rightarrow> int \<Rightarrow> item_payload_pair_t list" where
  "held_of w tid = held (mutexes_held_f (fst (get_thread_mutex_info tid w)))"

subsection \<open>thread\_registry::deadlock\_detection\<close>

text \<open>
  The snapshot \<^verbatim>\<open>copy_map()\<close> of the registry: thread ids with weak pointers to the
  descriptors. \<open>None\<close> is a weak pointer whose \<^verbatim>\<open>lock()\<close> gives null. The order of
  the list is the iteration order of the \<^verbatim>\<open>std::unordered_map\<close>.
\<close>

type_synonym registry_map = "(int \<times> thread_mutex_info option) list"

definition tid_to_info :: "registry_map \<Rightarrow> int \<Rightarrow> thread_mutex_info option" where
  "tid_to_info registry_map tid =
     (case map_of registry_map tid of None \<Rightarrow> None | Some weak_info \<Rightarrow> weak_info)"

record deadlock_info_t =
  tid :: int
  has_cycle :: bool
  other_wait_reason :: other_wait_reason_t
  chain :: "(int \<times> string) list"

text \<open>The constructor \<^verbatim>\<open>deadlock_info_t(pid_t tid_param)\<close>.\<close>

definition deadlock_info_init :: "int \<Rightarrow> deadlock_info_t" where
  "deadlock_info_init tid_param =
     \<lparr>tid = tid_param, has_cycle = False, other_wait_reason = reason_none, chain = []\<rparr>"

text \<open>
  The helper map \<^verbatim>\<open>mutex_to_tid\<close>: for each live descriptor of the snapshot, the slots
  \<^verbatim>\<open>bottom(i)\<close> for \<open>i\<close> below \<^verbatim>\<open>min(stack.size(), capacity)\<close> with a non-null
  handle; a later entry for the same handle replaces an earlier one. (The flag
  \<^verbatim>\<open>subset\<close> only feeds a log line and is left out.)
\<close>

definition add_held_to_map ::
  "nat \<Rightarrow> int \<Rightarrow> atomic_stack \<Rightarrow> (nat \<rightharpoonup> int \<times> nat) \<Rightarrow> (nat \<rightharpoonup> int \<times> nat)" where
  "add_held_to_map N tid2 st mutex_to_tid =
     foldl (\<lambda>acc i.
              let mutex_order_pair = bottom st i;
                  mutex_ptr = fst mutex_order_pair;
                  ord = snd mutex_order_pair
              in if mutex_ptr \<noteq> 0 then acc(mutex_ptr \<mapsto> (tid2, ord)) else acc)
       mutex_to_tid [0..<min (stack_size st) N]"

definition build_mutex_to_tid :: "nat \<Rightarrow> registry_map \<Rightarrow> (nat \<rightharpoonup> int \<times> nat)" where
  "build_mutex_to_tid N registry_map =
     foldl (\<lambda>acc (tid2, weak_info).
              case weak_info of
                None \<Rightarrow> acc
              | Some info \<Rightarrow> add_held_to_map N tid2 (mutexes_held_f info) acc)
       Map.empty registry_map"

text \<open>
  The choice at the head of the traversal loop: the owner of the awaited mutex, else the
  thread of the other wait (whose reason is then stored in the result), else nothing.
  The result is the next thread, the order, the reason and the updated
  \<^verbatim>\<open>deadlock_info\<close>.
\<close>

definition wait_edge ::
  "(nat \<rightharpoonup> int \<times> nat) \<Rightarrow> nat \<Rightarrow> int \<Rightarrow> other_wait_reason_t \<Rightarrow> nat \<Rightarrow> deadlock_info_t \<Rightarrow>
   (int \<times> nat \<times> other_wait_reason_t \<times> deadlock_info_t) option" where
  "wait_edge mutex_to_tid m other_wait_tid other_wait_reason_v other_wait_order deadlock_info =
     (case (if m \<noteq> 0 then mutex_to_tid m else None) of
        Some (tid2, ord) \<Rightarrow> Some (tid2, ord, reason_none, deadlock_info)
      | None \<Rightarrow>
          if other_wait_tid \<noteq> kInvalidTid then
            Some (other_wait_tid, other_wait_order, other_wait_reason_v,
                  deadlock_info\<lparr>other_wait_reason := other_wait_reason_v\<rparr>)
          else None)"

text \<open>The entry appended to the chain for an edge.\<close>

definition chain_entry ::
  "string list \<Rightarrow> int \<Rightarrow> nat \<Rightarrow> other_wait_reason_t \<Rightarrow> int \<times> string" where
  "chain_entry mutex_names tid2 ord reason =
     (let name = (if ord < length mutex_names then mutex_names ! ord else ''unknown'')
      in (tid2,
          if reason = reason_cv then ''cv-'' @ name
          else if reason = reason_join then ''join''
          else if reason = reason_queue then ''queue''
          else name))"

text \<open>
  The traversal loop \<^verbatim>\<open>for (pid_t tid2 = tid; true;)\<close>. It ends: every further round
  visits a thread of the snapshot that was not visited before.
\<close>

function deadlock_loop ::
  "registry_map \<Rightarrow> string list \<Rightarrow> (nat \<rightharpoonup> int \<times> nat) \<Rightarrow> int set \<Rightarrow>
   nat \<Rightarrow> int \<Rightarrow> other_wait_reason_t \<Rightarrow> nat \<Rightarrow> deadlock_info_t \<Rightarrow> deadlock_info_t" where
  "deadlock_loop registry_map mutex_names mutex_to_tid visited
       m other_wait_tid other_wait_reason_v other_wait_order deadlock_info =
     (case wait_edge mutex_to_tid m other_wait_tid other_wait_reason_v other_wait_order
             deadlock_info of
        None \<Rightarrow> deadlock_info
      | Some (tid2, ord, reason, info1) \<Rightarrow>
          let info2 = info1\<lparr>chain := chain info1 @ [chain_entry mutex_names tid2 ord reason]\<rparr>
          in if tid2 \<in> visited then info2\<lparr>has_cycle := True\<rparr>
             else
               case tid_to_info registry_map tid2 of
                 None \<Rightarrow> info2
               | Some tinfo \<Rightarrow>
                   deadlock_loop registry_map mutex_names mutex_to_tid (insert tid2 visited)
                     (mutex_wait_f tinfo)
                     (wait_tid_f (other_wait_info_f tinfo))
                     (wait_reason_f (other_wait_info_f tinfo))
                     (wait_order_f (other_wait_info_f tinfo))
                     info2)"
  by pat_completeness auto
termination
proof (relation "measure (\<lambda>(registry_map, mutex_names, mutex_to_tid, visited, rest).
                            card (fst ` set registry_map - visited))", goal_cases)
  case 1
  show ?case by simp
next
  case (2 registry_map mutex_names mutex_to_tid visited m other_wait_tid other_wait_reason_v
          other_wait_order deadlock_info x2 tid2 y ord ya reason info1 info2 tinfo)
  have "tid2 \<in> fst ` set registry_map"
    using 2 by (auto simp: tid_to_info_def split: option.splits dest!: map_of_SomeD intro: rev_image_eqI)
  then have "fst ` set registry_map - insert tid2 visited \<subset> fst ` set registry_map - visited"
    using 2 by auto
  then show ?case
    by (simp add: psubset_card_mono)
qed

declare deadlock_loop.simps [simp del]

text \<open>\<^verbatim>\<open>deadlock_detection(tid, mutex_names)\<close> on a snapshot of the registry.\<close>

definition deadlock_detection :: "registry_map \<Rightarrow> int \<Rightarrow> string list \<Rightarrow> deadlock_info_t" where
  "deadlock_detection registry_map tid_param mutex_names =
     (let deadlock_info = deadlock_info_init tid_param in
      case tid_to_info registry_map tid_param of
        None \<Rightarrow> deadlock_info
      | Some tinfo_original_tid \<Rightarrow>
          let m = mutex_wait_f tinfo_original_tid;
              other_wait_tid = wait_tid_f (other_wait_info_f tinfo_original_tid)
          in if m = 0 \<and> other_wait_tid = kInvalidTid then deadlock_info
             else
               deadlock_loop registry_map mutex_names
                 (build_mutex_to_tid mutex_stack_depth registry_map) {tid_param}
                 m other_wait_tid
                 (wait_reason_f (other_wait_info_f tinfo_original_tid))
                 (wait_order_f (other_wait_info_f tinfo_original_tid))
                 deadlock_info)"

subsection \<open>Invariants used in the proofs\<close>

text \<open>
  A descriptor whose held stack lies inside its array, has non-decreasing orders from
  bottom to top, holds no null handle and no handle twice, and holds every handle with
  the order that \<open>ord_of\<close> gives it (the constant member \<^verbatim>\<open>order_\<close> of the mutex at
  that address); and a process all of whose descriptors are so (a thread without a
  descriptor yet is read as having the freshly constructed one).
\<close>

definition thread_ok :: "(nat \<Rightarrow> nat) \<Rightarrow> thread_mutex_info \<Rightarrow> bool" where
  "thread_ok ord_of info \<longleftrightarrow>
     stack_ok mutex_stack_depth (mutexes_held_f info) \<and>
     sorted (map snd (held (mutexes_held_f info))) \<and>
     0 \<notin> fst ` set (held (mutexes_held_f info)) \<and>
     distinct (map fst (held (mutexes_held_f info))) \<and>
     (\<forall>p\<in>set (held (mutexes_held_f info)). snd p = ord_of (fst p))"

definition world_ok :: "(nat \<Rightarrow> nat) \<Rightarrow> world \<Rightarrow> bool" where
  "world_ok ord_of w \<longleftrightarrow> (\<forall>t. thread_ok ord_of (fst (get_thread_mutex_info t w)))"

section \<open>Properties of atomic\_stack\<close>

lemma shift_down_length [simp]: "length (shift_down ps i limit) = length ps"
  by (induction ps i limit rule: shift_down.induct) (subst shift_down.simps, simp)

lemma shift_down_nth:
  "limit < length ps \<Longrightarrow>
   shift_down ps i limit ! j = (if i \<le> j \<and> j < limit then ps ! (j + 1) else ps ! j)"
proof (induction ps i limit arbitrary: j rule: shift_down.induct)
  case (1 ps i limit)
  show ?case
  proof (cases "i < limit")
    case False
    then show ?thesis by (subst shift_down.simps) auto
  next
    case True
    have len: "limit < length (ps[i := ps ! (i + 1)])" using "1.prems" by simp
    have "shift_down ps i limit ! j = shift_down (ps[i := ps ! (i + 1)]) (i + 1) limit ! j"
      using True by (subst shift_down.simps) simp
    also have "\<dots> = (if i + 1 \<le> j \<and> j < limit then (ps[i := ps ! (i + 1)]) ! (j + 1)
                      else (ps[i := ps ! (i + 1)]) ! j)"
      using "1.IH" [OF True len] .
    also have "\<dots> = (if i \<le> j \<and> j < limit then ps ! (j + 1) else ps ! j)"
      using True "1.prems" by (auto simp: nth_list_update)
    finally show ?thesis .
  qed
qed

lemma find_item_None: "find_item item ps n = None \<longleftrightarrow> (\<forall>j<n. fst (ps ! j) \<noteq> item)"
  by (induction n) (auto simp: less_Suc_eq)

lemma find_item_Some:
  "find_item item ps n = Some i \<longleftrightarrow>
     i < n \<and> fst (ps ! i) = item \<and> (\<forall>j. i < j \<and> j < n \<longrightarrow> fst (ps ! j) \<noteq> item)"
proof (induction n)
  case 0
  then show ?case by simp
next
  case (Suc n)
  show ?case
  proof (cases "item = fst (ps ! n)")
    case True
    then show ?thesis
      by (auto simp: less_Suc_eq)
  next
    case False
    then show ?thesis using Suc
      by (auto simp: less_Suc_eq)
  qed
qed

text \<open>
  C3: at a physical size equal to the capacity \<open>N\<close>, \<^verbatim>\<open>push\<close> writes the pair into
  slot \<open>N - 1\<close> and changes no other slot, leaves the physical top at \<open>N\<close> and steps
  the logical size by one; below \<open>N\<close> it writes at the physical top and steps both
  counters.
\<close>

theorem push_slot_and_sizes:
  assumes "0 < N" and "length (pairs_f s) = N"
  shows "(top_f s = N \<longrightarrow>
            pairs_f (push N item payload s) = (pairs_f s)[N - 1 := (item, payload)] \<and>
            pairs_f (push N item payload s) ! (N - 1) = (item, payload) \<and>
            top_f (push N item payload s) = N \<and>
            true_top_f (push N item payload s) = true_top_f s + 1) \<and>
         (top_f s < N \<longrightarrow>
            pairs_f (push N item payload s) = (pairs_f s)[top_f s := (item, payload)] \<and>
            pairs_f (push N item payload s) ! top_f s = (item, payload) \<and>
            top_f (push N item payload s) = top_f s + 1 \<and>
            true_top_f (push N item payload s) = true_top_f s + 1)"
  using assms by (auto simp: push_def Let_def)

theorem push_slot_and_sizes_witness:
  "(0::nat) < 2 \<and>
   length (pairs_f (push 2 2 6 (push 2 1 5 (atomic_stack_init 2)))) = 2 \<and>
   top_f (push 2 2 6 (push 2 1 5 (atomic_stack_init 2))) = 2 \<and>
   pairs_f (push 2 3 7 (push 2 2 6 (push 2 1 5 (atomic_stack_init 2)))) = [(1, 5), (3, 7)] \<and>
   top_f (push 2 3 7 (push 2 2 6 (push 2 1 5 (atomic_stack_init 2)))) = 2 \<and>
   true_top_f (push 2 3 7 (push 2 2 6 (push 2 1 5 (atomic_stack_init 2)))) = 3 \<and>
   length (pairs_f (atomic_stack_init 2)) = 2 \<and>
   top_f (atomic_stack_init 2) < 2 \<and>
   pairs_f (push 2 1 5 (atomic_stack_init 2)) = [(1, 5), (0, 0)] \<and>
   top_f (push 2 1 5 (atomic_stack_init 2)) = 1 \<and>
   true_top_f (push 2 1 5 (atomic_stack_init 2)) = 1"
proof -
  let ?s = "push 2 2 6 (push 2 1 5 (atomic_stack_init 2))"
  have s: "?s = \<lparr>top_f = 2, true_top_f = 2, pairs_f = [(1, 5), (2, 6)]\<rparr>"
    by (simp add: push_def atomic_stack_init_def numeral_2_eq_2)
  have i: "atomic_stack_init 2 = \<lparr>top_f = 0, true_top_f = 0, pairs_f = [(0, 0), (0, 0)]\<rparr>"
    by (simp add: atomic_stack_init_def invalid_def numeral_2_eq_2)
  have h1: "(0::nat) < 2" by simp
  have h2: "length (pairs_f ?s) = 2" unfolding s by simp
  have h3: "length (pairs_f (atomic_stack_init 2)) = 2" unfolding i by simp
  have t: "top_f ?s = 2" unfolding s by simp
  have full: "pairs_f (push 2 3 7 ?s) = [(1, 5), (3, 7)] \<and> top_f (push 2 3 7 ?s) = 2 \<and>
              true_top_f (push 2 3 7 ?s) = 3"
    using push_slot_and_sizes [OF h1 h2, of 3 7] unfolding s by simp
  have below: "pairs_f (push 2 1 5 (atomic_stack_init 2)) = [(1, 5), (0, 0)] \<and>
               top_f (push 2 1 5 (atomic_stack_init 2)) = 1 \<and>
               true_top_f (push 2 1 5 (atomic_stack_init 2)) = 1"
    using push_slot_and_sizes [OF h1 h3, of 1 5] unfolding i by simp
  show ?thesis
    using full below h2 h3 t by (simp add: i)
qed

text \<open>
  C4: on a stack of non-zero logical size, \<^verbatim>\<open>remove\<close> finds the topmost slot below
  the physical top with the handle; it then moves every higher entry down one slot (the
  slots below the match and from the old top entry upwards keep their contents), steps
  both sizes down and returns true. With no such slot it returns true exactly when the
  logical size was above the physical size (leaving the logical size stepped down), and
  otherwise sets the logical size to the physical size and returns false.
\<close>

theorem remove_found_or_dropped:
  assumes "0 < true_top_f s" and "top_f s \<le> length (pairs_f s)"
  shows "((\<exists>j<top_f s. fst (pairs_f s ! j) = item) \<longrightarrow>
            (\<exists>i<top_f s. fst (pairs_f s ! i) = item \<and>
               (\<forall>j. i < j \<and> j < top_f s \<longrightarrow> fst (pairs_f s ! j) \<noteq> item) \<and>
               fst (remove item s) \<and>
               top_f (snd (remove item s)) = top_f s - 1 \<and>
               true_top_f (snd (remove item s)) = true_top_f s - 1 \<and>
               length (pairs_f (snd (remove item s))) = length (pairs_f s) \<and>
               (\<forall>j<i. pairs_f (snd (remove item s)) ! j = pairs_f s ! j) \<and>
               (\<forall>j. i \<le> j \<and> j < top_f s - 1 \<longrightarrow>
                  pairs_f (snd (remove item s)) ! j = pairs_f s ! (j + 1)) \<and>
               (\<forall>j. top_f s - 1 \<le> j \<longrightarrow>
                  pairs_f (snd (remove item s)) ! j = pairs_f s ! j))) \<and>
         ((\<forall>j<top_f s. fst (pairs_f s ! j) \<noteq> item) \<longrightarrow>
            remove item s =
              (if true_top_f s > top_f s then (True, s\<lparr>true_top_f := true_top_f s - 1\<rparr>)
               else (False, s\<lparr>true_top_f := top_f s\<rparr>)))"
proof (intro conjI impI)
  assume "\<exists>j<top_f s. fst (pairs_f s ! j) = item"
  then have "find_item item (pairs_f s) (top_f s) \<noteq> None"
    by (simp add: find_item_None)
  then obtain i where i: "find_item item (pairs_f s) (top_f s) = Some i" by blast
  then have iprops: "i < top_f s" "fst (pairs_f s ! i) = item"
    "\<forall>j. i < j \<and> j < top_f s \<longrightarrow> fst (pairs_f s ! j) \<noteq> item"
    by (simp_all add: find_item_Some)
  have lim: "top_f s - 1 < length (pairs_f s)" using iprops(1) assms(2) by simp
  have r: "remove item s =
      (True, s\<lparr>true_top_f := true_top_f s - 1,
               pairs_f := shift_down (pairs_f s) i (top_f s - 1), top_f := top_f s - 1\<rparr>)"
    using assms(1) i by (simp add: remove_def Let_def)
  show "\<exists>i<top_f s. fst (pairs_f s ! i) = item \<and>
               (\<forall>j. i < j \<and> j < top_f s \<longrightarrow> fst (pairs_f s ! j) \<noteq> item) \<and>
               fst (remove item s) \<and>
               top_f (snd (remove item s)) = top_f s - 1 \<and>
               true_top_f (snd (remove item s)) = true_top_f s - 1 \<and>
               length (pairs_f (snd (remove item s))) = length (pairs_f s) \<and>
               (\<forall>j<i. pairs_f (snd (remove item s)) ! j = pairs_f s ! j) \<and>
               (\<forall>j. i \<le> j \<and> j < top_f s - 1 \<longrightarrow>
                  pairs_f (snd (remove item s)) ! j = pairs_f s ! (j + 1)) \<and>
               (\<forall>j. top_f s - 1 \<le> j \<longrightarrow>
                  pairs_f (snd (remove item s)) ! j = pairs_f s ! j)"
    using iprops lim by (intro exI [of _ i]) (simp add: r shift_down_nth)
next
  assume "\<forall>j<top_f s. fst (pairs_f s ! j) \<noteq> item"
  then have "find_item item (pairs_f s) (top_f s) = None"
    by (simp add: find_item_None)
  then show "remove item s =
              (if true_top_f s > top_f s then (True, s\<lparr>true_top_f := true_top_f s - 1\<rparr>)
               else (False, s\<lparr>true_top_f := top_f s\<rparr>))"
    using assms(1) by (auto simp: remove_def Let_def)
qed


theorem remove_found_or_dropped_witness:
  "0 < true_top_f \<lparr>top_f = 2, true_top_f = 2, pairs_f = [(1, 5), (2, 6)]\<rparr> \<and>
   top_f \<lparr>top_f = 2, true_top_f = 2, pairs_f = [(1, 5), (2, 6)]\<rparr>
     \<le> length (pairs_f \<lparr>top_f = 2, true_top_f = 2, pairs_f = [(1, 5), (2, 6)]\<rparr>) \<and>
   remove 1 \<lparr>top_f = 2, true_top_f = 2, pairs_f = [(1, 5), (2, 6)]\<rparr> =
     (True, \<lparr>top_f = 1, true_top_f = 1, pairs_f = [(2, 6), (2, 6)]\<rparr>) \<and>
   remove 9 \<lparr>top_f = 2, true_top_f = 2, pairs_f = [(1, 5), (2, 6)]\<rparr> =
     (False, \<lparr>top_f = 2, true_top_f = 2, pairs_f = [(1, 5), (2, 6)]\<rparr>) \<and>
   remove 9 \<lparr>top_f = 2, true_top_f = 3, pairs_f = [(1, 5), (2, 6)]\<rparr> =
     (True, \<lparr>top_f = 2, true_top_f = 2, pairs_f = [(1, 5), (2, 6)]\<rparr>)"
proof -
  let ?s = "\<lparr>top_f = 2, true_top_f = 2, pairs_f = [(1, 5), (2, 6)]\<rparr>"
  let ?u = "\<lparr>top_f = 2, true_top_f = 3, pairs_f = [(1, 5), (2, 6)]\<rparr>"
  have h1: "0 < true_top_f ?s" by simp
  have h2: "top_f ?s \<le> length (pairs_f ?s)" by simp
  have nf: "\<forall>j<top_f ?s. fst (pairs_f ?s ! j) \<noteq> 9"
    by (simp add: less_Suc_eq numeral_2_eq_2)
  have r9: "remove 9 ?s = (False, ?s)"
    using remove_found_or_dropped [OF h1 h2, of 9] nf by simp
  have u1: "0 < true_top_f ?u" by simp
  have u2: "top_f ?u \<le> length (pairs_f ?u)" by simp
  have nu: "\<forall>j<top_f ?u. fst (pairs_f ?u ! j) \<noteq> 9"
    by (simp add: less_Suc_eq numeral_2_eq_2)
  have d9: "remove 9 ?u = (True, ?s)"
    using remove_found_or_dropped [OF u1 u2, of 9] nu by simp
  have r1: "remove 1 ?s = (True, \<lparr>top_f = 1, true_top_f = 1, pairs_f = [(2, 6), (2, 6)]\<rparr>)"
    by (simp add: remove_def numeral_2_eq_2 shift_down.simps)
  show ?thesis using h1 h2 r9 d9 r1 by simp
qed

lemma push_stack_ok: "stack_ok N s \<Longrightarrow> stack_ok N (push N item payload s)"
  by (auto simp: stack_ok_def push_def Let_def)

lemma remove_stack_ok: "stack_ok N s \<Longrightarrow> stack_ok N (snd (remove item s))"
  by (auto simp: stack_ok_def remove_def Let_def split: option.splits)

lemma push_sizes:
  "top_f s \<le> true_top_f s \<Longrightarrow> top_f (push N item payload s) \<le> true_top_f (push N item payload s)"
  by (auto simp: push_def Let_def)

lemma remove_sizes:
  "top_f s \<le> true_top_f s \<Longrightarrow> top_f (snd (remove item s)) \<le> true_top_f (snd (remove item s))"
  by (auto simp: remove_def Let_def split: option.splits)

lemma stack_step_inv:
  "stack_ok N s \<and> top_f s \<le> true_top_f s \<Longrightarrow>
   stack_ok N (stack_step N s x) \<and> top_f (stack_step N s x) \<le> true_top_f (stack_step N s x)"
  by (cases x) (simp_all add: push_stack_ok remove_stack_ok push_sizes remove_sizes)

lemma foldl_stack_step_inv:
  "stack_ok N s \<and> top_f s \<le> true_top_f s \<Longrightarrow>
   stack_ok N (foldl (stack_step N) s ops) \<and>
   top_f (foldl (stack_step N) s ops) \<le> true_top_f (foldl (stack_step N) s ops)"
  by (induction ops arbitrary: s) (simp_all add: stack_step_inv)

text \<open>
  C9: after every run of \<^verbatim>\<open>push\<close> and \<^verbatim>\<open>remove\<close> operations on a stack (each
  prefix of a run is a run), the logical size is at least the physical size and the
  physical size is at most the capacity \<open>N\<close>.
\<close>

theorem stack_run_sizes:
  "stack_size (stack_run N ops) \<le> true_size (stack_run N ops) \<and>
   stack_size (stack_run N ops) \<le> N"
proof -
  have "stack_ok N (atomic_stack_init N) \<and>
        top_f (atomic_stack_init N) \<le> true_top_f (atomic_stack_init N)"
    by (simp add: stack_ok_def atomic_stack_init_def)
  from foldl_stack_step_inv [OF this, of ops] show ?thesis
    by (simp add: stack_run_def stack_size_def true_size_def stack_ok_def)
qed


text \<open>
  C10: with a logical size of zero, \<^verbatim>\<open>remove\<close> returns false for any handle and
  leaves the physical size, the logical size and every slot as they were.
\<close>

theorem remove_empty_unchanged:
  "true_top_f s = 0 \<Longrightarrow> remove item s = (False, s)"
  by (simp add: remove_def)

theorem remove_empty_unchanged_witness:
  "true_top_f (atomic_stack_init 16) = 0 \<and>
   remove 7 (atomic_stack_init 16) = (False, atomic_stack_init 16)"
proof -
  have h: "true_top_f (atomic_stack_init 16) = 0" by (simp add: atomic_stack_init_def)
  show ?thesis using h remove_empty_unchanged [OF h, of 7] by simp
qed


lemma held_push:
  assumes "stack_ok N st" and "0 < N"
  shows "held (push N h ord st) =
           (if top_f st < N then held st else butlast (held st)) @ [(h, ord)]"
proof (cases "top_f st < N")
  case True
  then show ?thesis using assms
    by (simp add: held_def push_def stack_ok_def take_Suc_conv_app_nth)
next
  case False
  then have t: "top_f st = N" using assms by (simp add: stack_ok_def)
  have len: "length (pairs_f st) = N" using assms by (simp add: stack_ok_def)
  have "(pairs_f st)[N - 1 := (h, ord)] = butlast (pairs_f st) @ [(h, ord)]"
    using len assms(2)
    by (intro nth_equalityI) (auto simp: nth_append nth_butlast nth_list_update)
  then show ?thesis using t len assms(2) by (simp add: held_def push_def)
qed

lemma sorted_remove_nth: "sorted xs \<Longrightarrow> sorted (take i xs @ drop (Suc i) xs)"
proof (induction xs arbitrary: i)
  case Nil
  then show ?case by simp
next
  case (Cons a xs)
  show ?case
  proof (cases i)
    case 0
    then show ?thesis using Cons.prems by simp
  next
    case (Suc k)
    have "sorted (take k xs @ drop (Suc k) xs)" using Cons by simp
    moreover have "\<forall>x\<in>set (take k xs @ drop (Suc k) xs). a \<le> x"
      using Cons.prems by (auto dest: in_set_takeD in_set_dropD)
    ultimately show ?thesis using Suc by simp
  qed
qed


lemma held_remove:
  assumes "stack_ok N st"
  shows "held (snd (remove h st)) = held st \<or>
         (\<exists>i. held (snd (remove h st)) = take i (held st) @ drop (Suc i) (held st))"
proof (cases "true_top_f st = 0")
  case True
  then show ?thesis by (simp add: remove_def)
next
  case nz: False
  show ?thesis
  proof (cases "find_item h (pairs_f st) (top_f st)")
    case None
    then show ?thesis using nz by (simp add: remove_def held_def Let_def)
  next
    case (Some i)
    then have i: "i < top_f st" by (simp add: find_item_Some)
    have le: "top_f st \<le> length (pairs_f st)" using assms by (simp add: stack_ok_def)
    have lim: "top_f st - 1 < length (pairs_f st)" using i le by simp
    have r: "held (snd (remove h st)) =
               take (top_f st - 1) (shift_down (pairs_f st) i (top_f st - 1))"
      using nz Some by (simp add: remove_def held_def Let_def)
    have "take (top_f st - 1) (shift_down (pairs_f st) i (top_f st - 1)) =
            take i (held st) @ drop (Suc i) (held st)"
    proof (rule nth_equalityI)
      show "length (take (top_f st - 1) (shift_down (pairs_f st) i (top_f st - 1))) =
              length (take i (held st) @ drop (Suc i) (held st))"
        using i le by (simp add: held_def)
    next
      fix j
      assume "j < length (take (top_f st - 1) (shift_down (pairs_f st) i (top_f st - 1)))"
      then have j: "j < top_f st - 1" by simp
      show "take (top_f st - 1) (shift_down (pairs_f st) i (top_f st - 1)) ! j =
              (take i (held st) @ drop (Suc i) (held st)) ! j"
        using j i le lim by (auto simp: shift_down_nth nth_append held_def)
    qed
    then show ?thesis using r by auto
  qed
qed

section \<open>Properties of check\_held\<close>

lemma replicate_16: "replicate 16 x = [x, x, x, x, x, x, x, x, x, x, x, x, x, x, x, x]"
  by (simp add: numeral_eq_Suc)

lemma top_stack_rev_held:
  "stack_ok N st \<Longrightarrow> i < top_f st \<Longrightarrow> top_stack N st i = rev (held st) ! i"
  by (auto simp: stack_ok_def top_stack_def held_def rev_nth Let_def nat_diff_distrib' of_nat_diff
      intro!: arg_cong [where f = "nth (pairs_f st)"])

lemma check_held_loop_dropWhile:
  "stack_ok N st \<Longrightarrow> sz = top_f st \<Longrightarrow> i \<le> sz \<Longrightarrow>
   check_held_loop N st mutex ord sz i =
     (case dropWhile (\<lambda>t. snd t = ord \<and> fst t \<noteq> mutex) (drop i (rev (held st))) of
        [] \<Rightarrow> invalid
      | t # ts \<Rightarrow> if snd t < ord then invalid else t)"
proof (induction N st mutex ord sz i rule: check_held_loop.induct)
  case (1 N st mutex ord sz i)
  have len: "length (rev (held st)) = sz"
    using "1.prems" by (simp add: held_def stack_ok_def)
  show ?case
  proof (cases "i < sz")
    case False
    then show ?thesis using len by (subst check_held_loop.simps) simp
  next
    case True
    define t where "t = top_stack N st i"
    have t: "t = rev (held st) ! i"
      using True "1.prems" by (simp add: t_def top_stack_rev_held)
    have dr: "drop i (rev (held st)) = t # drop (Suc i) (rev (held st))"
      using True len t by (simp add: Cons_nth_drop_Suc)
    show ?thesis
    proof (cases "snd t = ord \<and> fst t \<noteq> mutex")
      case skip: True
      have "check_held_loop N st mutex ord sz i = check_held_loop N st mutex ord sz (i + 1)"
        using True skip by (subst check_held_loop.simps) (simp add: t_def Let_def)
      also have "\<dots> = (case dropWhile (\<lambda>t. snd t = ord \<and> fst t \<noteq> mutex)
                           (drop (i + 1) (rev (held st))) of
                          [] \<Rightarrow> invalid | t # ts \<Rightarrow> if snd t < ord then invalid else t)"
        using "1.IH" [OF True t_def refl] skip "1.prems" True by simp
      finally show ?thesis using dr skip by simp
    next
      case False
      then show ?thesis using True dr
        by (subst check_held_loop.simps) (auto simp: t_def [symmetric] Let_def)
    qed
  qed
qed


lemma scan_result:
  fixes xs :: "item_payload_pair_t list"
  assumes "sorted (rev (map snd xs))" "mutex \<noteq> 0"
    "\<forall>p\<in>set xs. fst p = mutex \<longrightarrow> snd p = ord"
  defines "R \<equiv> (case dropWhile (\<lambda>t. snd t = ord \<and> fst t \<noteq> mutex) xs of
        [] \<Rightarrow> invalid
      | t # ts \<Rightarrow> if snd t < ord then invalid else t)"
  shows "(R = invalid \<longleftrightarrow> (\<forall>p\<in>set xs. snd p \<le> ord) \<and> mutex \<notin> fst ` set xs) \<and>
         (R \<noteq> invalid \<longrightarrow> find (\<lambda>p. ord < snd p \<or> fst p = mutex) xs = Some R)"
  using assms(1,3) unfolding R_def
proof (induction xs)
  case Nil
  then show ?case by simp
next
  case (Cons t ts)
  have tl: "sorted (rev (map snd ts))" "\<forall>p\<in>set ts. fst p = mutex \<longrightarrow> snd p = ord"
    and le: "\<forall>p\<in>set ts. snd p \<le> snd t"
    using Cons.prems by (auto simp: sorted_append)
  note IH = Cons.IH [OF tl]
  consider (skip) "snd t = ord" "fst t \<noteq> mutex" | (lt) "snd t < ord" | (gt) "ord < snd t"
    | (same) "snd t = ord" "fst t = mutex"
    by fastforce
  then show ?case
  proof cases
    case skip
    then show ?thesis using IH by auto
  next
    case lt
    then show ?thesis using le Cons.prems(2) by (fastforce simp: invalid_def)
  next
    case gt
    then show ?thesis by (cases t) (auto simp: invalid_def)
  next
    case same
    then show ?thesis using assms(2) by (cases t) (auto simp: invalid_def)
  qed
qed

lemma check_held_list:
  "stack_ok N (mutexes_held_f info) \<Longrightarrow>
   check_held N mutex ord info =
     (case dropWhile (\<lambda>t. snd t = ord \<and> fst t \<noteq> mutex) (rev (held (mutexes_held_f info))) of
        [] \<Rightarrow> invalid
      | t # ts \<Rightarrow> if snd t < ord then invalid else t)"
  using check_held_loop_dropWhile [of N "mutexes_held_f info" "top_f (mutexes_held_f info)" 0 mutex ord]
  by (simp add: check_held_def stack_size_def)


text \<open>A thread that holds one mutex, of handle 1 and order 13.\<close>

lemma one_held:
  "held (mutexes_held_f (push_held 16 1 13 (thread_mutex_info_init 16 100))) = [(1, 13)]"
  by (simp add: push_held_def thread_mutex_info_init_def atomic_stack_init_def
      push_def held_def replicate_16)

lemma one_held_stack_ok:
  "stack_ok 16 (mutexes_held_f (push_held 16 1 13 (thread_mutex_info_init 16 100)))"
  by (simp add: push_held_def thread_mutex_info_init_def atomic_stack_init_def
      push_def stack_ok_def)

text \<open>
  C1 as stated fails: with the mutex of handle 1 and order 13 held (the order sequence
  \<open>[13]\<close> is strictly increasing), \<^verbatim>\<open>check_held\<close> for another mutex of the same order
  13 passes over the entry and returns the invalid pair, although the push would give the
  order sequence \<open>[13, 13]\<close>.
\<close>

theorem check_held_equal_order_counterexample:
  "\<not> (check_held 16 2 13 (push_held 16 1 13 (thread_mutex_info_init 16 100)) = invalid \<longleftrightarrow>
        sorted_wrt (<)
          (map snd (held (mutexes_held_f (push_held 16 1 13 (thread_mutex_info_init 16 100))))
             @ [13]) \<and>
        2 \<notin> fst ` set (held (mutexes_held_f (push_held 16 1 13 (thread_mutex_info_init 16 100)))))"
proof -
  have "check_held 16 2 13 (push_held 16 1 13 (thread_mutex_info_init 16 100)) = invalid"
    by (simp add: push_held_def thread_mutex_info_init_def atomic_stack_init_def
        push_def check_held_def stack_size_def check_held_loop.simps top_stack_def Let_def
        replicate_16)
  then show ?thesis unfolding one_held by simp
qed

text \<open>
  C1, amended: for a held stack whose orders are non-decreasing from bottom to top and a
  proposed acquisition of a non-null handle that, where it is on the stack, is there with
  the proposed order, \<^verbatim>\<open>check_held\<close> returns the invalid pair if and only if the push
  would keep the order sequence non-decreasing and would not duplicate a handle of the
  stack; otherwise it returns the first entry, scanning from the top, whose order is
  strictly greater than the proposed order or whose handle is the proposed handle.
\<close>

theorem check_held_invalid_iff:
  assumes "stack_ok N (mutexes_held_f info)"
    and "sorted (map snd (held (mutexes_held_f info)))"
    and "mutex \<noteq> 0"
    and "\<forall>p\<in>set (held (mutexes_held_f info)). fst p = mutex \<longrightarrow> snd p = ord"
  shows "(check_held N mutex ord info = invalid \<longleftrightarrow>
            sorted (map snd (held (mutexes_held_f info)) @ [ord]) \<and>
            mutex \<notin> fst ` set (held (mutexes_held_f info))) \<and>
         (check_held N mutex ord info \<noteq> invalid \<longrightarrow>
            find (\<lambda>p. ord < snd p \<or> fst p = mutex) (rev (held (mutexes_held_f info))) =
              Some (check_held N mutex ord info))"
proof -
  let ?xs = "rev (held (mutexes_held_f info))"
  have 1: "sorted (rev (map snd ?xs))" using assms(2) by (simp add: rev_map)
  have 2: "\<forall>p\<in>set ?xs. fst p = mutex \<longrightarrow> snd p = ord" using assms(4) by simp
  show ?thesis
    using scan_result [OF 1 assms(3) 2] assms(2)
    by (simp add: check_held_list [OF assms(1)] sorted_append)
qed

theorem check_held_invalid_iff_witness:
  "stack_ok 16 (mutexes_held_f (push_held 16 1 13 (thread_mutex_info_init 16 100))) \<and>
   sorted (map snd (held (mutexes_held_f (push_held 16 1 13 (thread_mutex_info_init 16 100))))) \<and>
   (1::nat) \<noteq> 0 \<and>
   held (mutexes_held_f (push_held 16 1 13 (thread_mutex_info_init 16 100))) = [(1, 13)] \<and>
   check_held 16 1 13 (push_held 16 1 13 (thread_mutex_info_init 16 100)) = (1, 13) \<and>
   check_held 16 1 13 (push_held 16 1 13 (thread_mutex_info_init 16 100)) \<noteq> invalid"
proof -
  let ?info = "push_held 16 1 13 (thread_mutex_info_init 16 100)"
  have h2: "sorted (map snd (held (mutexes_held_f ?info)))" unfolding one_held by simp
  have h3: "(1::nat) \<noteq> 0" by simp
  have h4: "\<forall>p\<in>set (held (mutexes_held_f ?info)). fst p = 1 \<longrightarrow> snd p = 13"
    unfolding one_held by simp
  note th = check_held_invalid_iff [OF one_held_stack_ok h2 h3 h4]
  have ne: "check_held 16 1 13 ?info \<noteq> invalid"
    using th unfolding one_held by simp
  have "find (\<lambda>p. 13 < snd p \<or> fst p = 1) (rev (held (mutexes_held_f ?info))) =
          Some (check_held 16 1 13 ?info)"
    using th ne by blast
  then have "check_held 16 1 13 ?info = (1, 13)"
    unfolding one_held by simp
  then show ?thesis
    using ne one_held_stack_ok h2 one_held by simp
qed

lemma thread_ok_init: "thread_ok ord_of (thread_mutex_info_init mutex_stack_depth t)"
  by (simp add: thread_ok_def thread_mutex_info_init_def atomic_stack_init_def stack_ok_def
      held_def)

lemma thread_ok_reset_waiter: "thread_ok ord_of (reset_waiter x info) = thread_ok ord_of info"
  by (simp add: thread_ok_def reset_waiter_def)

lemma distinct_remove_nth: "distinct xs \<Longrightarrow> distinct (take i xs @ drop (Suc i) xs)"
  using set_take_disj_set_drop_if_distinct [of xs i "Suc i"] by simp

lemma thread_ok_remove_held:
  assumes "thread_ok ord_of info"
  shows "thread_ok ord_of (snd (remove_held h info))"
proof -
  let ?st = "mutexes_held_f info"
  let ?P = "\<lambda>xs. sorted (map snd xs) \<and> 0 \<notin> fst ` set xs \<and> distinct (map fst xs) \<and>
                 (\<forall>p\<in>set xs. snd p = ord_of (fst p))"
  have ok: "stack_ok mutex_stack_depth ?st" using assms by (simp add: thread_ok_def)
  have P: "?P (held ?st)" using assms by (simp add: thread_ok_def)
  have st: "mutexes_held_f (snd (remove_held h info)) = snd (remove h ?st)"
    by (simp add: remove_held_def split: prod.splits)
  from held_remove [OF ok, of h]
  have "?P (held (snd (remove h ?st)))"
  proof
    assume "held (snd (remove h ?st)) = held ?st"
    then show ?thesis using P by simp
  next
    assume "\<exists>i. held (snd (remove h ?st)) = take i (held ?st) @ drop (Suc i) (held ?st)"
    then obtain i where
      e: "held (snd (remove h ?st)) = take i (held ?st) @ drop (Suc i) (held ?st)" by blast
    have 1: "sorted (take i (map snd (held ?st)) @ drop (Suc i) (map snd (held ?st)))"
      using P by (intro sorted_remove_nth) simp
    have 2: "distinct (take i (map fst (held ?st)) @ drop (Suc i) (map fst (held ?st)))"
      using P by (intro distinct_remove_nth) simp
    have 3: "set (take i (held ?st) @ drop (Suc i) (held ?st)) \<subseteq> set (held ?st)"
      by (auto dest: in_set_takeD in_set_dropD)
    have "sorted (map snd (take i (held ?st) @ drop (Suc i) (held ?st)))"
      using 1 by (simp add: take_map drop_map)
    moreover have "distinct (map fst (take i (held ?st) @ drop (Suc i) (held ?st)))"
      using 2 by (simp add: take_map drop_map)
    moreover have "0 \<notin> fst ` set (take i (held ?st) @ drop (Suc i) (held ?st))"
      using 3 P by blast
    moreover have "\<forall>p\<in>set (take i (held ?st) @ drop (Suc i) (held ?st)). snd p = ord_of (fst p)"
      using 3 P by blast
    ultimately show ?thesis unfolding e by blast
  qed
  then show ?thesis
    using remove_stack_ok [OF ok, of h] by (simp add: thread_ok_def st)
qed

lemma thread_ok_push_held:
  assumes "thread_ok ord_of info" and "h \<noteq> 0" and "ord = ord_of h"
    and "\<forall>p\<in>set (held (mutexes_held_f info)). snd p \<le> ord"
    and "h \<notin> fst ` set (held (mutexes_held_f info))"
  shows "thread_ok ord_of (push_held mutex_stack_depth h ord info)"
proof -
  let ?st = "mutexes_held_f info"
  define ys where
    "ys = (if top_f ?st < mutex_stack_depth then held ?st else butlast (held ?st))"
  have ok: "stack_ok mutex_stack_depth ?st" using assms by (simp add: thread_ok_def)
  have pos: "0 < mutex_stack_depth" by (simp add: mutex_stack_depth_def)
  have sub: "set ys \<subseteq> set (held ?st)"
    unfolding ys_def by (auto dest: in_set_butlastD)
  have so: "sorted (map snd ys)"
    using assms(1) unfolding ys_def by (simp add: thread_ok_def map_butlast sorted_butlast)
  have di: "distinct (map fst ys)"
    using assms(1) unfolding ys_def by (simp add: thread_ok_def map_butlast distinct_butlast)
  have h: "held (push mutex_stack_depth h ord ?st) = ys @ [(h, ord)]"
    unfolding ys_def by (rule held_push [OF ok pos])
  have "sorted (map snd (ys @ [(h, ord)]))"
    using so sub assms(4) by (auto simp: sorted_append)
  moreover have "distinct (map fst (ys @ [(h, ord)]))"
    using di sub assms(5) by auto
  moreover have "0 \<notin> fst ` set (ys @ [(h, ord)])"
    using sub assms(1,2) by (auto simp: thread_ok_def)
  moreover have "\<forall>p\<in>set (ys @ [(h, ord)]). snd p = ord_of (fst p)"
    using sub assms(1,3) by (auto simp: thread_ok_def)
  moreover have st': "mutexes_held_f (push_held mutex_stack_depth h ord info) =
                        push mutex_stack_depth h ord ?st"
    by (simp add: push_held_def)
  ultimately show ?thesis
    using push_stack_ok [OF ok, of h ord] unfolding thread_ok_def st' h by blast
qed

lemma find_SomeD: "find P xs = Some x \<Longrightarrow> x \<in> set xs \<and> P x"
  by (induction xs) (auto split: if_splits)

lemma scan_pass:
  fixes xs :: "item_payload_pair_t list" and ord mutex :: nat
  assumes "sorted (rev (map snd xs))" and "0 \<notin> fst ` set xs"
  defines "R \<equiv> (case dropWhile (\<lambda>t. snd t = ord \<and> fst t \<noteq> mutex) xs of
        [] \<Rightarrow> invalid
      | t # ts \<Rightarrow> if snd t < ord then invalid else t)"
  assumes "fst R = 0 \<or> snd R < ord"
  shows "\<forall>p\<in>set xs. snd p \<le> ord"
  using assms(1,2,4) unfolding R_def
proof (induction xs)
  case Nil
  then show ?case by simp
next
  case (Cons a as)
  have le: "\<forall>p\<in>set as. snd p \<le> snd a" using Cons.prems(1) by (auto simp: sorted_append)
  show ?case
  proof (cases "snd a = ord \<and> fst a \<noteq> mutex")
    case True
    then show ?thesis using Cons by (auto simp: sorted_append)
  next
    case False
    then show ?thesis using Cons.prems le by (fastforce split: if_splits)
  qed
qed

lemma check_held_pass:
  assumes "thread_ok ord_of info" and "h \<noteq> 0" and "ord = ord_of h"
    and "fst (check_held mutex_stack_depth h ord info) = 0 \<or>
         snd (check_held mutex_stack_depth h ord info) < ord"
  shows "\<forall>p\<in>set (held (mutexes_held_f info)). snd p \<le> ord"
    and "h \<notin> fst ` set (held (mutexes_held_f info))"
proof -
  let ?xs = "rev (held (mutexes_held_f info))"
  let ?R = "check_held mutex_stack_depth h ord info"
  have ok: "stack_ok mutex_stack_depth (mutexes_held_f info)"
    using assms(1) by (simp add: thread_ok_def)
  have 1: "sorted (rev (map snd ?xs))" using assms(1) by (simp add: thread_ok_def rev_map)
  have 2: "0 \<notin> fst ` set ?xs" using assms(1) by (simp add: thread_ok_def)
  have 3: "\<forall>p\<in>set ?xs. fst p = h \<longrightarrow> snd p = ord"
    using assms(1,3) by (simp add: thread_ok_def)
  from scan_pass [OF 1 2, of ord h] assms(4)
  show le: "\<forall>p\<in>set (held (mutexes_held_f info)). snd p \<le> ord"
    by (simp add: check_held_list [OF ok])
  note sr = scan_result [OF 1 assms(2) 3, folded check_held_list [OF ok]]
  have "?R = invalid"
  proof (rule ccontr)
    assume ne: "?R \<noteq> invalid"
    then have f: "find (\<lambda>p. ord < snd p \<or> fst p = h) ?xs = Some ?R" using sr by blast
    then have mem: "?R \<in> set ?xs" and q: "ord < snd ?R \<or> fst ?R = h"
      using find_SomeD [OF f] by blast+
    from mem 2 have "fst ?R \<noteq> 0" by (metis image_eqI)
    then have lt: "snd ?R < ord" using assms(4) by simp
    then have "fst ?R = h" using q by simp
    then have "snd ?R = ord" using 3 mem by blast
    then show False using lt by simp
  qed
  then show "h \<notin> fst ` set (held (mutexes_held_f info))"
    using sr by simp
qed

section \<open>Properties of the mutex operations\<close>

lemma get_thread_mutex_info_fields [simp]:
  "os_calls (snd (get_thread_mutex_info t w)) = os_calls w"
  "stat_array (snd (get_thread_mutex_info t w)) = stat_array w"
  by (simp_all add: get_thread_mutex_info_def Let_def split: option.splits)

lemma update_thread_mutex_info_fields [simp]:
  "os_calls (update_thread_mutex_info t f w) = os_calls w"
  "stat_array (update_thread_mutex_info t f w) = stat_array w"
  by (simp_all add: update_thread_mutex_info_def get_thread_mutex_info_def Let_def
      split: option.splits)

lemma update_stat_os_calls [simp]: "os_calls (update_stat m f w) = os_calls w"
  by (simp add: update_stat_def)

lemma os_call_made_fields [simp]:
  "os_calls (os_call_made c w) = os_calls w @ [c]"
  "stat_array (os_call_made c w) = stat_array w"
  by (simp_all add: os_call_made_def)

lemma pre_lock_fields:
  "pre_lock m t w = Inr w1 \<Longrightarrow> os_calls w1 = os_calls w \<and> stat_array w1 = stat_array w"
  by (auto simp: pre_lock_def Let_def get_thread_mutex_info_def
      split: if_splits option.splits prod.splits)

lemma post_lock_os_calls [simp]: "os_calls (post_lock m t w) = os_calls w"
  by (simp add: post_lock_def)

lemma lock_scoped_stat_os_calls [simp]:
  "os_calls (lock_scoped_stat_ctor m t w) = os_calls w"
  "os_calls (lock_scoped_stat_dtor m t d dt w) = os_calls w"
  by (simp_all add: lock_scoped_stat_ctor_def lock_scoped_stat_dtor_def)

lemma map_update_same: "f y = f (xs ! i) \<Longrightarrow> map f (xs[i := y]) = map f xs"
  by (induction xs arbitrary: i) (auto split: nat.splits)

lemma update_stat_keeps:
  "g (f (stat_array w ! order_f m)) = g (stat_array w ! order_f m) \<Longrightarrow>
   map g (stat_array (update_stat m f w)) = map g (stat_array w)"
  by (simp add: update_stat_def map_update_same)

lemma info_get [simp]:
  "fst (get_thread_mutex_info t (snd (get_thread_mutex_info t' w))) =
     fst (get_thread_mutex_info t w)"
  by (simp add: get_thread_mutex_info_def Let_def split: option.splits)

lemma info_update [simp]:
  "fst (get_thread_mutex_info t (update_thread_mutex_info t' f w)) =
     (if t = t' then f (fst (get_thread_mutex_info t w)) else fst (get_thread_mutex_info t w))"
  by (simp add: update_thread_mutex_info_def get_thread_mutex_info_def Let_def
      split: option.splits)

lemma info_update_stat [simp]:
  "fst (get_thread_mutex_info t (update_stat m f w)) = fst (get_thread_mutex_info t w)"
  by (simp add: update_stat_def get_thread_mutex_info_def Let_def split: option.splits)

lemma info_os_call_made [simp]:
  "fst (get_thread_mutex_info t (os_call_made c w)) = fst (get_thread_mutex_info t w)"
  by (simp add: os_call_made_def get_thread_mutex_info_def Let_def split: option.splits)

lemma info_store [simp]:
  "fst (get_thread_mutex_info t (w\<lparr>tminfo := (tminfo w)(t' \<mapsto> i)\<rparr>)) =
     (if t = t' then i else fst (get_thread_mutex_info t w))"
  by (simp add: get_thread_mutex_info_def Let_def split: option.splits)

lemma mutexes_held_reset_waiter [simp]:
  "mutexes_held_f (reset_waiter x info) = mutexes_held_f info"
  by (simp add: reset_waiter_def)

lemma pre_lock_Inr:
  assumes "pre_lock m t w = Inr w1"
  shows "w1 = snd (get_thread_mutex_info t w)"
    and "fst (check_held mutex_stack_depth (handle m) (order_f m) (fst (get_thread_mutex_info t w))) = 0 \<or>
         snd (check_held mutex_stack_depth (handle m) (order_f m) (fst (get_thread_mutex_info t w)))
           < order_f m"
  using assms
  by (auto simp: pre_lock_def Let_def abort_on_order_check_def abort_on_recursion_check_def
      split: if_splits prod.splits)

lemma post_lock_ok:
  assumes "world_ok ord_of w" and "valid_mutex m" and "order_f m = ord_of (handle m)"
    and "\<forall>p\<in>set (held (mutexes_held_f (fst (get_thread_mutex_info t w)))). snd p \<le> order_f m"
    and "handle m \<notin> fst ` set (held (mutexes_held_f (fst (get_thread_mutex_info t w))))"
  shows "world_ok ord_of (post_lock m t w)"
  using assms
  by (auto simp: world_ok_def post_lock_def valid_mutex_def intro!: thread_ok_push_held)

lemma scoped_stat_ok:
  "world_ok ord_of (lock_scoped_stat_ctor m t w) = world_ok ord_of w"
  "world_ok ord_of (lock_scoped_stat_dtor m t d dt w) = world_ok ord_of w"
  by (auto simp: world_ok_def lock_scoped_stat_ctor_def lock_scoped_stat_dtor_def
      thread_ok_reset_waiter)

lemma scoped_stat_held:
  "mutexes_held_f (fst (get_thread_mutex_info t' (lock_scoped_stat_ctor m t w))) =
     mutexes_held_f (fst (get_thread_mutex_info t' w))"
  "mutexes_held_f (fst (get_thread_mutex_info t' (lock_scoped_stat_dtor m t d dt w))) =
     mutexes_held_f (fst (get_thread_mutex_info t' w))"
  by (auto simp: lock_scoped_stat_ctor_def lock_scoped_stat_dtor_def)

lemma os_call_made_ok: "world_ok ord_of (os_call_made c w) = world_ok ord_of w"
  by (simp add: world_ok_def)

lemma get_ok: "world_ok ord_of (snd (get_thread_mutex_info t w)) = world_ok ord_of w"
  by (simp add: world_ok_def)

lemma pre_lock_pass:
  assumes "world_ok ord_of w" and "valid_mutex m" and "order_f m = ord_of (handle m)"
    and "pre_lock m t w = Inr w1"
  shows "world_ok ord_of w1"
    and "\<forall>p\<in>set (held (mutexes_held_f (fst (get_thread_mutex_info t w1)))). snd p \<le> order_f m"
    and "handle m \<notin> fst ` set (held (mutexes_held_f (fst (get_thread_mutex_info t w1))))"
proof -
  have w1: "w1 = snd (get_thread_mutex_info t w)" using assms(4) by (rule pre_lock_Inr)
  show "world_ok ord_of w1" using assms(1) by (simp add: w1 get_ok)
  have ok: "thread_ok ord_of (fst (get_thread_mutex_info t w))"
    using assms(1) by (simp add: world_ok_def)
  have nz: "handle m \<noteq> 0" using assms(2) by (simp add: valid_mutex_def)
  note ch = check_held_pass [OF ok nz assms(3) pre_lock_Inr(2) [OF assms(4)]]
  show "\<forall>p\<in>set (held (mutexes_held_f (fst (get_thread_mutex_info t w1)))). snd p \<le> order_f m"
    using ch(1) by (simp add: w1)
  show "handle m \<notin> fst ` set (held (mutexes_held_f (fst (get_thread_mutex_info t w1))))"
    using ch(2) by (simp add: w1)
qed

lemma post_lock_after:
  assumes "world_ok ord_of w1" and "valid_mutex m" and "order_f m = ord_of (handle m)"
    and "\<forall>p\<in>set (held (mutexes_held_f (fst (get_thread_mutex_info t w1)))). snd p \<le> order_f m"
    and "handle m \<notin> fst ` set (held (mutexes_held_f (fst (get_thread_mutex_info t w1))))"
    and "world_ok ord_of w3 = world_ok ord_of w1"
    and "mutexes_held_f (fst (get_thread_mutex_info t w3)) =
         mutexes_held_f (fst (get_thread_mutex_info t w1))"
  shows "world_ok ord_of (post_lock m t w3)"
  using assms by (intro post_lock_ok) simp_all

lemma lock_ok:
  assumes "world_ok ord_of w" and "valid_mutex m" and "order_f m = ord_of (handle m)"
    and "lock m e w = Inr w'"
  shows "world_ok ord_of w'"
proof -
  obtain w1 where p: "pre_lock m (caller e) w = Inr w1"
    using assms(4) by (auto simp: lock_def split: sum.splits)
  note pp = pre_lock_pass [OF assms(1,2,3) p]
  define w3 where "w3 =
    (if \<not> try_lock_ok e then
       lock_scoped_stat_dtor m (caller e) False (time_leave e - time_enter e)
         (os_call_made (OsLock (handle m))
           (lock_scoped_stat_ctor m (caller e) (os_call_made (OsTryLock (handle m)) w1)))
     else os_call_made (OsTryLock (handle m)) w1)"
  have w': "w' = post_lock m (caller e) w3"
    using assms(4) p by (simp add: lock_def Let_def w3_def)
  have 1: "world_ok ord_of w3 = world_ok ord_of w1"
    by (simp add: w3_def scoped_stat_ok os_call_made_ok)
  have 2: "mutexes_held_f (fst (get_thread_mutex_info (caller e) w3)) =
           mutexes_held_f (fst (get_thread_mutex_info (caller e) w1))"
    by (simp add: w3_def scoped_stat_held)
  show ?thesis unfolding w'
    by (rule post_lock_after [OF pp(1) assms(2,3) pp(2,3) 1 2])
qed

lemma try_lock_ok_inv:
  assumes "world_ok ord_of w" and "valid_mutex m" and "order_f m = ord_of (handle m)"
    and "try_lock m timeout_ns e w = Inr (b, w')"
  shows "world_ok ord_of w'"
proof -
  obtain w1 where p: "pre_lock m (caller e) w = Inr w1"
    using assms(4) by (auto simp: try_lock_def split: sum.splits)
  note pp = pre_lock_pass [OF assms(1,2,3) p]
  let ?t = "caller e"
  let ?a = "os_call_made (OsTryLock (handle m)) w1"
  let ?c = "os_call_made
              (OsTimedLock (handle m) (safe_add_sat timeout_ns (now_realtime e) sdiv 1000000000)
                 (safe_add_sat timeout_ns (now_realtime e) smod 1000000000))
              (lock_scoped_stat_ctor m ?t w1)"
  let ?d = "lock_scoped_stat_dtor m ?t False (time_leave e - time_enter e) ?c"
  have cases: "w' = ?a \<or> w' = post_lock m ?t ?a \<or>
      w' = lock_scoped_stat_dtor m ?t True (time_leave e - time_enter e) ?c \<or>
      w' = post_lock m ?t ?d"
    using assms(4) p by (auto simp: try_lock_def Let_def split: if_splits)
  have a: "world_ok ord_of ?a = world_ok ord_of w1" by (simp add: os_call_made_ok)
  have a2: "mutexes_held_f (fst (get_thread_mutex_info ?t ?a)) =
            mutexes_held_f (fst (get_thread_mutex_info ?t w1))" by simp
  have d: "world_ok ord_of ?d = world_ok ord_of w1"
    by (simp add: scoped_stat_ok os_call_made_ok)
  have d2: "mutexes_held_f (fst (get_thread_mutex_info ?t ?d)) =
            mutexes_held_f (fst (get_thread_mutex_info ?t w1))" by (simp add: scoped_stat_held)
  have "world_ok ord_of (post_lock m ?t ?a)"
    by (rule post_lock_after [OF pp(1) assms(2,3) pp(2,3) a a2])
  moreover have "world_ok ord_of (post_lock m ?t ?d)"
    by (rule post_lock_after [OF pp(1) assms(2,3) pp(2,3) d d2])
  moreover have "world_ok ord_of ?a" using pp(1) a by simp
  moreover have
    "world_ok ord_of (lock_scoped_stat_dtor m ?t True (time_leave e - time_enter e) ?c)"
    using pp(1) by (simp add: scoped_stat_ok os_call_made_ok)
  ultimately show ?thesis using cases by blast
qed

lemma pre_unlock_alt:
  "pre_unlock m t w =
     (let g = get_thread_mutex_info t (update_stat m (\<lambda>st. st\<lparr>unlocks := unlocks st + 1\<rparr>) w);
          r = remove_held (handle m) (fst g)
      in if abort_on_invalid_unlock \<and> \<not> fst r then Inl InvalidMutexUnlock
         else Inr ((snd g)\<lparr>tminfo := (tminfo (snd g))(t \<mapsto> snd r)\<rparr>))"
  by (simp only: pre_unlock_def Let_def split_beta)

lemma pre_unlock_Inr:
  assumes "pre_unlock m t w = Inr w'"
  shows "fst (get_thread_mutex_info t' w') =
           (if t' = t then snd (remove_held (handle m) (fst (get_thread_mutex_info t w)))
            else fst (get_thread_mutex_info t' w))"
proof -
  let ?g = "get_thread_mutex_info t (update_stat m (\<lambda>st. st\<lparr>unlocks := unlocks st + 1\<rparr>) w)"
  have w': "w' = (snd ?g)\<lparr>tminfo := (tminfo (snd ?g))(t \<mapsto>
                   snd (remove_held (handle m) (fst ?g)))\<rparr>"
    using assms unfolding pre_unlock_alt by (simp add: Let_def split: if_splits)
  show ?thesis by (subst w') simp
qed

lemma unlock_ok:
  assumes "world_ok ord_of w" and "unlock m e w = Inr w'"
  shows "world_ok ord_of w'"
proof -
  obtain w1 where p: "pre_unlock m (caller e) w = Inr w1"
    and w': "w' = os_call_made (OsUnlock (handle m)) w1"
    using assms(2) by (auto simp: unlock_def split: sum.splits)
  have "world_ok ord_of w1"
    using assms(1) by (simp add: world_ok_def pre_unlock_Inr [OF p] thread_ok_remove_held)
  then show ?thesis by (simp add: w' os_call_made_ok)
qed

lemma mutex_step_ok:
  "world_ok ord_of w \<Longrightarrow> valid_mutex (mutex_of x) \<Longrightarrow>
   order_f (mutex_of x) = ord_of (handle (mutex_of x)) \<Longrightarrow> mutex_step w x = Inr w' \<Longrightarrow>
   world_ok ord_of w'"
  by (cases x) (auto intro: lock_ok unlock_ok try_lock_ok_inv split: sum.splits)

lemma mutex_run_ok:
  "world_ok ord_of w \<Longrightarrow> \<forall>x\<in>set ops. valid_mutex (mutex_of x) \<Longrightarrow>
   \<forall>x\<in>set ops. order_f (mutex_of x) = ord_of (handle (mutex_of x)) \<Longrightarrow>
   mutex_run w ops = Inr w' \<Longrightarrow> world_ok ord_of w'"
proof (induction ops arbitrary: w)
  case Nil
  then show ?case by simp
next
  case (Cons x xs)
  from Cons.prems(4) obtain w1 where st: "mutex_step w x = Inr w1"
    and rest: "mutex_run w1 xs = Inr w'"
    by (auto split: sum.splits)
  have "world_ok ord_of w1"
    using mutex_step_ok [OF Cons.prems(1) _ _ st] Cons.prems(2,3) by simp
  then show ?case using Cons.IH [OF _ _ _ rest] Cons.prems(2,3) by simp
qed

lemma world_init_ok: "world_ok ord_of world_init"
  by (simp add: world_ok_def world_init_def get_thread_mutex_info_def thread_ok_init Let_def)

lemma pre_lock_first_use:
  "tminfo w t = None \<Longrightarrow>
   pre_lock m t w =
     Inr (w\<lparr>tminfo := (tminfo w)(t \<mapsto> thread_mutex_info_init mutex_stack_depth t)\<rparr>)"
  by (simp add: pre_lock_def get_thread_mutex_info_def check_held_def check_held_loop.simps
      stack_size_def thread_mutex_info_init_def atomic_stack_init_def invalid_def Let_def
      abort_on_order_check_def abort_on_recursion_check_def)

lemmas eval_defs =
  lock_def unlock_def try_lock_def pre_lock_def post_lock_def
  pre_unlock_def lock_scoped_stat_ctor_def lock_scoped_stat_dtor_def update_stat_def
  update_thread_mutex_info_def get_thread_mutex_info_def os_call_made_def world_init_def
  abort_on_order_check_def abort_on_recursion_check_def abort_on_invalid_unlock_def
  mutex_stack_depth_def order_size_def check_held_def check_held_loop.simps stack_size_def
  top_stack_def push_held_def remove_held_def push_def remove_def reset_waiter_def
  thread_mutex_info_init_def atomic_stack_init_def invalid_def mutex_stat_init_def
  add_wait_time_def held_of_def held_def Let_def replicate_16

text \<open>
  C6 as stated fails: a thread that holds the mutex of handle 1 and order 13 and calls
  \<^verbatim>\<open>try_lock(0)\<close> on it is stopped by the recursion check of \<^verbatim>\<open>pre_lock\<close>, which is
  fatal before \<^verbatim>\<open>m_.try_lock()\<close> is reached: there is no try-lock attempt.
\<close>

theorem try_lock_held_mutex_counterexample:
  "\<not> isl (lock \<lparr>handle = 1, order_f = 13\<rparr>
            \<lparr>caller = 100, try_lock_ok = True, timedlock_rc = 0, now_realtime = 1000,
             time_enter = 0, time_leave = 0\<rparr> world_init) \<and>
   try_lock \<lparr>handle = 1, order_f = 13\<rparr> 0
     \<lparr>caller = 100, try_lock_ok = False, timedlock_rc = 0, now_realtime = 2000,
      time_enter = 0, time_leave = 0\<rparr>
     (projr (lock \<lparr>handle = 1, order_f = 13\<rparr>
               \<lparr>caller = 100, try_lock_ok = True, timedlock_rc = 0, now_realtime = 1000,
                time_enter = 0, time_leave = 0\<rparr> world_init)) =
     Inl RecursiveMutexAccess"
  by (simp add: eval_defs)

text \<open>
  C6, amended: \<^verbatim>\<open>try_lock(timeout_ns)\<close> either ends the process in \<^verbatim>\<open>pre_lock\<close>
  (the order or recursion check), before any call to the operating system, or returns;
  the only call it has then made is one \<^verbatim>\<open>m_.try_lock()\<close> when \<open>timeout_ns \<le> 0\<close>, and
  one \<^verbatim>\<open>pthread_mutex_timedlock\<close> against the deadline
  \<^verbatim>\<open>safe_add_sat(timeout_ns, now)\<close> when \<open>timeout_ns > 0\<close>. That deadline is now plus
  timeout whenever the sum is an \<^verbatim>\<open>int64_t\<close>.
\<close>

theorem try_lock_os_calls:
  "(case try_lock m timeout_ns e w of
      Inl f \<Rightarrow>
        pre_lock m (caller e) w = Inl f \<and> (f = InvalidMutexOrder \<or> f = RecursiveMutexAccess)
    | Inr (locked, w') \<Rightarrow>
        os_calls w' = os_calls w @
          [if timeout_ns \<le> 0 then OsTryLock (handle m)
           else OsTimedLock (handle m)
                  (safe_add_sat timeout_ns (now_realtime e) sdiv 1000000000)
                  (safe_add_sat timeout_ns (now_realtime e) smod 1000000000)]) \<and>
   (- (2 ^ 63) \<le> now_realtime e + timeout_ns \<and> now_realtime e + timeout_ns \<le> 2 ^ 63 - 1 \<longrightarrow>
      safe_add_sat timeout_ns (now_realtime e) = now_realtime e + timeout_ns)"
proof (cases "pre_lock m (caller e) w")
  case (Inl f)
  then have "f = InvalidMutexOrder \<or> f = RecursiveMutexAccess"
    by (auto simp: pre_lock_def Let_def split: if_splits prod.splits)
  then show ?thesis
    using Inl by (simp add: try_lock_def safe_add_sat_def add.commute)
next
  case (Inr w1)
  then show ?thesis
    using pre_lock_fields [OF Inr]
    by (simp add: try_lock_def Let_def safe_add_sat_def add.commute)
qed

theorem try_lock_os_calls_witness:
  "(\<exists>locked w'.
      try_lock \<lparr>handle = 1, order_f = 13\<rparr> 0
        \<lparr>caller = 200, try_lock_ok = False, timedlock_rc = 110,
         now_realtime = 1700000000123456789, time_enter = 10, time_leave = 15\<rparr> world_init =
        Inr (locked, w') \<and>
      os_calls w' = [OsTryLock 1]) \<and>
   (\<exists>locked w'.
      try_lock \<lparr>handle = 1, order_f = 13\<rparr> 5
        \<lparr>caller = 200, try_lock_ok = False, timedlock_rc = 110,
         now_realtime = 1700000000123456789, time_enter = 10, time_leave = 15\<rparr> world_init =
        Inr (locked, w') \<and>
      os_calls w' = [OsTimedLock 1 1700000000 123456794]) \<and>
   safe_add_sat 5 1700000000123456789 = 1700000000123456789 + 5"
proof -
  let ?m = "\<lparr>handle = 1, order_f = 13\<rparr>"
  let ?e = "\<lparr>caller = 200, try_lock_ok = False, timedlock_rc = 110,
             now_realtime = 1700000000123456789, time_enter = 10, time_leave = 15\<rparr>"
  have n: "tminfo world_init 200 = None" by (simp add: world_init_def)
  have h: "pre_lock ?m (caller ?e) world_init =
     Inr (world_init\<lparr>tminfo := (tminfo world_init)(200 \<mapsto>
            thread_mutex_info_init mutex_stack_depth 200)\<rparr>)"
    using pre_lock_first_use [OF n, of ?m] by simp
  have r0: "\<exists>locked w'. try_lock ?m 0 ?e world_init = Inr (locked, w')"
    using h by (auto simp: try_lock_def)
  have r5: "\<exists>locked w'. try_lock ?m 5 ?e world_init = Inr (locked, w')"
    using h by (auto simp: try_lock_def Let_def)
  have d: "safe_add_sat 5 1700000000123456789 = 1700000000123456794"
    by (simp add: safe_add_sat_def)
  have o: "os_calls world_init = []" by (simp add: world_init_def)
  from r0 obtain l0 w0 where e0: "try_lock ?m 0 ?e world_init = Inr (l0, w0)" by blast
  from r5 obtain l5 w5 where e5: "try_lock ?m 5 ?e world_init = Inr (l5, w5)" by blast
  have "os_calls w0 = [OsTryLock 1]"
    using try_lock_os_calls [where m = ?m and timeout_ns = 0 and e = ?e and w = world_init]
    unfolding e0 o by simp
  moreover have "os_calls w5 = [OsTimedLock 1 1700000000 123456794]"
    using try_lock_os_calls [where m = ?m and timeout_ns = 5 and e = ?e and w = world_init]
    unfolding e5 o by (simp add: d signed_divide_int_def signed_modulo_int_def)
  ultimately show ?thesis using e0 e5 d by auto
qed

text \<open>
  C7: once \<^verbatim>\<open>pre_lock\<close> has passed, a \<^verbatim>\<open>try_lock(timeout_ns)\<close> with
  \<open>timeout_ns > 0\<close> whose \<^verbatim>\<open>pthread_mutex_timedlock\<close> fails returns false and leaves
  \<^verbatim>\<open>wait_sum_ns\<close> and \<^verbatim>\<open>wait_sumsq_ns\<close> of every category as they were.
\<close>

theorem try_lock_timeout_discards_wait:
  assumes "0 < timeout_ns" and "timedlock_rc e \<noteq> 0" and "pre_lock m (caller e) w = Inr w1"
  shows "\<exists>w'. try_lock m timeout_ns e w = Inr (False, w') \<and>
           map wait_sum_ns (stat_array w') = map wait_sum_ns (stat_array w) \<and>
           map wait_sumsq_ns (stat_array w') = map wait_sumsq_ns (stat_array w)"
  using assms pre_lock_fields [OF assms(3)]
  by (simp add: try_lock_def Let_def lock_scoped_stat_ctor_def lock_scoped_stat_dtor_def
      update_stat_keeps)

theorem try_lock_timeout_discards_wait_witness:
  "(0::int) < 5 \<and>
   timedlock_rc \<lparr>caller = 200, try_lock_ok = False, timedlock_rc = 110,
                 now_realtime = 1700000000123456789, time_enter = 10, time_leave = 15\<rparr> \<noteq> 0 \<and>
   pre_lock \<lparr>handle = 1, order_f = 13\<rparr> 200 world_init =
     Inr (world_init\<lparr>tminfo := (tminfo world_init)(200 \<mapsto>
            thread_mutex_info_init mutex_stack_depth 200)\<rparr>) \<and>
   (\<exists>w'.
      try_lock \<lparr>handle = 1, order_f = 13\<rparr> 5
        \<lparr>caller = 200, try_lock_ok = False, timedlock_rc = 110,
         now_realtime = 1700000000123456789, time_enter = 10, time_leave = 15\<rparr> world_init =
        Inr (False, w') \<and>
      map wait_sum_ns (stat_array w') = map wait_sum_ns (stat_array world_init) \<and>
      map wait_sumsq_ns (stat_array w') = map wait_sumsq_ns (stat_array world_init))"
proof -
  let ?m = "\<lparr>handle = 1, order_f = 13\<rparr>"
  let ?e = "\<lparr>caller = 200, try_lock_ok = False, timedlock_rc = 110,
             now_realtime = 1700000000123456789, time_enter = 10, time_leave = 15\<rparr>"
  have n: "tminfo world_init 200 = None" by (simp add: world_init_def)
  have h3: "pre_lock ?m (caller ?e) world_init =
     Inr (world_init\<lparr>tminfo := (tminfo world_init)(200 \<mapsto>
            thread_mutex_info_init mutex_stack_depth 200)\<rparr>)"
    using pre_lock_first_use [OF n, of ?m] by simp
  have h1: "(0::int) < 5" by simp
  have h2: "timedlock_rc ?e \<noteq> 0" by simp
  show ?thesis
    using try_lock_timeout_discards_wait [OF h1 h2 h3] h3 by simp
qed

lemma update_stat_length [simp]:
  "length (stat_array (update_stat m f w)) = length (stat_array w)"
  by (simp add: update_stat_def)

lemma update_stat_nth:
  "k < length (stat_array w) \<Longrightarrow>
   stat_array (update_stat m f w) ! k =
     (if k = order_f m then f (stat_array w ! k) else stat_array w ! k)"
  by (simp add: update_stat_def nth_list_update)

lemma lock_keeps_waits_le_locks:
  assumes "lock m e w = Inr w'"
    and "\<forall>k<length (stat_array w). waits (stat_array w ! k) \<le> locks (stat_array w ! k)"
  shows "\<forall>k<length (stat_array w'). waits (stat_array w' ! k) \<le> locks (stat_array w' ! k)"
proof -
  obtain w1 where p: "pre_lock m (caller e) w = Inr w1"
    using assms(1) by (auto simp: lock_def split: sum.splits)
  have s1: "stat_array w1 = stat_array w" using pre_lock_fields [OF p] by simp
  have key: "\<And>k. k < length (stat_array w) \<Longrightarrow>
               waits (stat_array w ! k) \<le> Suc (locks (stat_array w ! k))"
    using assms(2) by (simp add: le_SucI)
  show ?thesis
    using assms p s1 key
    by (auto simp: lock_def Let_def post_lock_def lock_scoped_stat_ctor_def
        lock_scoped_stat_dtor_def add_wait_time_def update_stat_nth intro: le_SucI split: if_splits)
qed

lemma unlock_keeps_waits_le_locks:
  assumes "unlock m e w = Inr w'"
    and "\<forall>k<length (stat_array w). waits (stat_array w ! k) \<le> locks (stat_array w ! k)"
  shows "\<forall>k<length (stat_array w'). waits (stat_array w' ! k) \<le> locks (stat_array w' ! k)"
proof -
  obtain w1 where p: "pre_unlock m (caller e) w = Inr w1"
    and w': "w' = os_call_made (OsUnlock (handle m)) w1"
    using assms(1) by (auto simp: unlock_def split: sum.splits)
  have "stat_array w1 = stat_array (update_stat m (\<lambda>st. st\<lparr>unlocks := unlocks st + 1\<rparr>) w)"
    using p unfolding pre_unlock_alt by (auto simp: Let_def split: if_splits)
  then show ?thesis using assms(2) by (auto simp: w' update_stat_nth)
qed

lemma try_lock_keeps_waits_le_locks:
  assumes "try_lock m timeout_ns e w = Inr (locked, w')"
    and "\<not> (0 < timeout_ns \<and> timedlock_rc e \<noteq> 0)"
    and "\<forall>k<length (stat_array w). waits (stat_array w ! k) \<le> locks (stat_array w ! k)"
  shows "\<forall>k<length (stat_array w'). waits (stat_array w' ! k) \<le> locks (stat_array w' ! k)"
proof -
  obtain w1 where p: "pre_lock m (caller e) w = Inr w1"
    using assms(1) by (auto simp: try_lock_def split: sum.splits)
  have s1: "stat_array w1 = stat_array w" using pre_lock_fields [OF p] by simp
  have key: "\<And>k. k < length (stat_array w) \<Longrightarrow>
               waits (stat_array w ! k) \<le> Suc (locks (stat_array w ! k))"
    using assms(3) by (simp add: le_SucI)
  show ?thesis
    using assms p s1 key
    by (auto simp: try_lock_def Let_def post_lock_def lock_scoped_stat_ctor_def
        lock_scoped_stat_dtor_def add_wait_time_def update_stat_nth split: if_splits)
qed

text \<open>
  Without a timed-out \<^verbatim>\<open>try_lock\<close>, every completed call keeps \<open>waits \<le> locks\<close> in
  every category: \<^verbatim>\<open>lock\<close> and a successful timed \<^verbatim>\<open>try_lock\<close> step \<^verbatim>\<open>locks\<close>
  after \<^verbatim>\<open>waits\<close>.
\<close>

lemma mutex_run_waits_le_locks:
  "\<forall>x\<in>set ops. \<not> timed_out x \<Longrightarrow> mutex_run w ops = Inr w' \<Longrightarrow>
   \<forall>k<length (stat_array w). waits (stat_array w ! k) \<le> locks (stat_array w ! k) \<Longrightarrow>
   \<forall>k<length (stat_array w'). waits (stat_array w' ! k) \<le> locks (stat_array w' ! k)"
proof (induction ops arbitrary: w)
  case Nil
  then show ?case by simp
next
  case (Cons x xs)
  from Cons.prems(2) obtain w1 where st: "mutex_step w x = Inr w1"
    and rest: "mutex_run w1 xs = Inr w'"
    by (auto split: sum.splits)
  have "\<forall>k<length (stat_array w1). waits (stat_array w1 ! k) \<le> locks (stat_array w1 ! k)"
  proof (cases x)
    case (Lock m e)
    then show ?thesis using st Cons.prems(3) lock_keeps_waits_le_locks by simp
  next
    case (Unlock m e)
    then show ?thesis using st Cons.prems(3) unlock_keeps_waits_le_locks by simp
  next
    case (TryLock m timeout_ns e)
    then obtain locked where "try_lock m timeout_ns e w = Inr (locked, w1)"
      using st by (auto split: sum.splits)
    moreover have "\<not> (0 < timeout_ns \<and> timedlock_rc e \<noteq> 0)"
      using Cons.prems(1) TryLock by simp
    ultimately show ?thesis
      using Cons.prems(3) try_lock_keeps_waits_le_locks by blast
  qed
  then show ?case using Cons.IH [OF _ rest] Cons.prems(1) by simp
qed

text \<open>
  C2 fails on the code (\<open>isl\<close> tells a fatal run, \<open>projr\<close> is the process a
  run leaves): thread 100 locks a mutex of order 13 without contention, then
  thread 200 calls \<^verbatim>\<open>try_lock(5)\<close> on it twice and times out both times
  (\<^verbatim>\<open>ETIMEDOUT\<close> is 110). Each timed call constructs the
  \<^verbatim>\<open>lock_scoped_stat_enabled\<close> object, which steps \<^verbatim>\<open>waits\<close>, and returns before
  \<^verbatim>\<open>post_lock\<close>, which would step \<^verbatim>\<open>locks\<close>: the category ends with one lock and two
  waits.
\<close>

theorem waits_exceed_locks_after_timeouts:
  "\<not> isl (mutex_run world_init
      [Lock \<lparr>handle = 1, order_f = 13\<rparr>
         \<lparr>caller = 100, try_lock_ok = True, timedlock_rc = 0, now_realtime = 1000,
          time_enter = 0, time_leave = 0\<rparr>,
       TryLock \<lparr>handle = 1, order_f = 13\<rparr> 5
         \<lparr>caller = 200, try_lock_ok = False, timedlock_rc = 110, now_realtime = 1000,
          time_enter = 10, time_leave = 15\<rparr>,
       TryLock \<lparr>handle = 1, order_f = 13\<rparr> 5
         \<lparr>caller = 200, try_lock_ok = False, timedlock_rc = 110, now_realtime = 2000,
          time_enter = 20, time_leave = 25\<rparr>]) \<and>
   locks (stat_array (projr (mutex_run world_init
      [Lock \<lparr>handle = 1, order_f = 13\<rparr>
         \<lparr>caller = 100, try_lock_ok = True, timedlock_rc = 0, now_realtime = 1000,
          time_enter = 0, time_leave = 0\<rparr>,
       TryLock \<lparr>handle = 1, order_f = 13\<rparr> 5
         \<lparr>caller = 200, try_lock_ok = False, timedlock_rc = 110, now_realtime = 1000,
          time_enter = 10, time_leave = 15\<rparr>,
       TryLock \<lparr>handle = 1, order_f = 13\<rparr> 5
         \<lparr>caller = 200, try_lock_ok = False, timedlock_rc = 110, now_realtime = 2000,
          time_enter = 20, time_leave = 25\<rparr>])) ! 13) = 1 \<and>
   waits (stat_array (projr (mutex_run world_init
      [Lock \<lparr>handle = 1, order_f = 13\<rparr>
         \<lparr>caller = 100, try_lock_ok = True, timedlock_rc = 0, now_realtime = 1000,
          time_enter = 0, time_leave = 0\<rparr>,
       TryLock \<lparr>handle = 1, order_f = 13\<rparr> 5
         \<lparr>caller = 200, try_lock_ok = False, timedlock_rc = 110, now_realtime = 1000,
          time_enter = 10, time_leave = 15\<rparr>,
       TryLock \<lparr>handle = 1, order_f = 13\<rparr> 5
         \<lparr>caller = 200, try_lock_ok = False, timedlock_rc = 110, now_realtime = 2000,
          time_enter = 20, time_leave = 25\<rparr>])) ! 13) = 2"
  by (simp add: eval_defs)

text \<open>
  C5 as stated fails: a thread that locks two mutexes of the same order 13 (handles 1 and
  2) passes \<^verbatim>\<open>pre_lock\<close> both times and then holds the order sequence \<open>[13, 13]\<close>.
\<close>

theorem held_orders_equal_counterexample:
  "\<not> isl (mutex_run world_init
      [Lock \<lparr>handle = 1, order_f = 13\<rparr>
         \<lparr>caller = 100, try_lock_ok = True, timedlock_rc = 0, now_realtime = 1000,
          time_enter = 0, time_leave = 0\<rparr>,
       Lock \<lparr>handle = 2, order_f = 13\<rparr>
         \<lparr>caller = 100, try_lock_ok = True, timedlock_rc = 0, now_realtime = 1000,
          time_enter = 0, time_leave = 0\<rparr>]) \<and>
   held_of (projr (mutex_run world_init
      [Lock \<lparr>handle = 1, order_f = 13\<rparr>
         \<lparr>caller = 100, try_lock_ok = True, timedlock_rc = 0, now_realtime = 1000,
          time_enter = 0, time_leave = 0\<rparr>,
       Lock \<lparr>handle = 2, order_f = 13\<rparr>
         \<lparr>caller = 100, try_lock_ok = True, timedlock_rc = 0, now_realtime = 1000,
          time_enter = 0, time_leave = 0\<rparr>])) 100 = [(1, 13), (2, 13)] \<and>
   \<not> sorted_wrt (<) (map snd (held_of (projr (mutex_run world_init
      [Lock \<lparr>handle = 1, order_f = 13\<rparr>
         \<lparr>caller = 100, try_lock_ok = True, timedlock_rc = 0, now_realtime = 1000,
          time_enter = 0, time_leave = 0\<rparr>,
       Lock \<lparr>handle = 2, order_f = 13\<rparr>
         \<lparr>caller = 100, try_lock_ok = True, timedlock_rc = 0, now_realtime = 1000,
          time_enter = 0, time_leave = 0\<rparr>])) 100))"
  by (simp add: eval_defs)

text \<open>
  C5, amended: for every thread, after any run of \<^verbatim>\<open>lock\<close>, \<^verbatim>\<open>unlock\<close> and
  \<^verbatim>\<open>try_lock\<close> calls on instrumented mutexes (a handle always with the same order)
  that does not end in a fatal error, the sequence of orders in its held stack from
  bottom to top is non-decreasing and no handle is on the stack twice: two entries share
  an order only when their handles differ.
\<close>

theorem held_orders_sorted:
  assumes "\<forall>x\<in>set ops. valid_mutex (mutex_of x)"
    and "\<forall>x\<in>set ops. \<forall>y\<in>set ops.
           handle (mutex_of x) = handle (mutex_of y) \<longrightarrow>
           order_f (mutex_of x) = order_f (mutex_of y)"
    and "mutex_run world_init ops = Inr w"
  shows "sorted (map snd (held_of w t)) \<and> distinct (map fst (held_of w t))"
proof -
  define ord_of where
    "ord_of = (\<lambda>h. order_f (mutex_of (SOME y. y \<in> set ops \<and> handle (mutex_of y) = h)))"
  have "\<forall>x\<in>set ops. order_f (mutex_of x) = ord_of (handle (mutex_of x))"
  proof
    fix x
    assume x: "x \<in> set ops"
    let ?y = "SOME y. y \<in> set ops \<and> handle (mutex_of y) = handle (mutex_of x)"
    have "?y \<in> set ops \<and> handle (mutex_of ?y) = handle (mutex_of x)"
      by (rule someI [of _ x]) (simp add: x)
    then show "order_f (mutex_of x) = ord_of (handle (mutex_of x))"
      using assms(2) x unfolding ord_of_def by metis
  qed
  from mutex_run_ok [OF world_init_ok assms(1) this assms(3)]
  show ?thesis
    by (simp add: world_ok_def thread_ok_def held_of_def)
qed

theorem held_orders_sorted_witness:
  "valid_mutex \<lparr>handle = 1, order_f = 13\<rparr> \<and> valid_mutex \<lparr>handle = 2, order_f = 13\<rparr> \<and>
   (\<exists>w. mutex_run world_init
          [Lock \<lparr>handle = 1, order_f = 13\<rparr>
             \<lparr>caller = 100, try_lock_ok = True, timedlock_rc = 0, now_realtime = 1000,
              time_enter = 0, time_leave = 0\<rparr>,
           Lock \<lparr>handle = 2, order_f = 13\<rparr>
             \<lparr>caller = 100, try_lock_ok = False, timedlock_rc = 0, now_realtime = 1000,
              time_enter = 10, time_leave = 15\<rparr>] = Inr w \<and>
        held_of w 100 = [(1, 13), (2, 13)] \<and>
        sorted (map snd (held_of w 100)) \<and> distinct (map fst (held_of w 100)))"
proof -
  let ?ops = "[Lock \<lparr>handle = 1, order_f = 13\<rparr>
             \<lparr>caller = 100, try_lock_ok = True, timedlock_rc = 0, now_realtime = 1000,
              time_enter = 0, time_leave = 0\<rparr>,
           Lock \<lparr>handle = 2, order_f = 13\<rparr>
             \<lparr>caller = 100, try_lock_ok = False, timedlock_rc = 0, now_realtime = 1000,
              time_enter = 10, time_leave = 15\<rparr>]"
  have v: "valid_mutex \<lparr>handle = 1, order_f = 13\<rparr>" "valid_mutex \<lparr>handle = 2, order_f = 13\<rparr>"
    by (simp_all add: valid_mutex_def order_size_def)
  then have h1: "\<forall>x\<in>set ?ops. valid_mutex (mutex_of x)" by simp
  have h2: "\<forall>x\<in>set ?ops. \<forall>y\<in>set ?ops.
              handle (mutex_of x) = handle (mutex_of y) \<longrightarrow>
              order_f (mutex_of x) = order_f (mutex_of y)"
    by simp
  have "\<not> isl (mutex_run world_init ?ops) \<and>
        held_of (projr (mutex_run world_init ?ops)) 100 = [(1, 13), (2, 13)]"
    by (simp add: eval_defs)
  then obtain w where h3: "mutex_run world_init ?ops = Inr w"
    and hw: "held_of w 100 = [(1, 13), (2, 13)]"
    by (cases "mutex_run world_init ?ops") auto
  from held_orders_sorted [OF h1 h2 h3, of 100] h3 hw v show ?thesis by blast
qed

section \<open>Properties of deadlock\_detection\<close>

text \<open>
  C8: when the descriptor of the target thread exists in the snapshot and has a null
  waiting handle and an invalid other-wait thread id, \<^verbatim>\<open>deadlock_detection\<close> returns
  the \<^verbatim>\<open>deadlock_info\<close> of that thread with an empty chain and no cycle.
\<close>

theorem deadlock_detection_not_waiting:
  assumes "tid_to_info registry_map target_tid = Some tinfo"
    and "mutex_wait_f tinfo = 0"
    and "wait_tid_f (other_wait_info_f tinfo) = kInvalidTid"
  shows "chain (deadlock_detection registry_map target_tid mutex_names) = [] \<and>
         \<not> has_cycle (deadlock_detection registry_map target_tid mutex_names) \<and>
         tid (deadlock_detection registry_map target_tid mutex_names) = target_tid"
  using assms by (simp add: deadlock_detection_def deadlock_info_init_def Let_def)

theorem deadlock_detection_not_waiting_witness:
  "tid_to_info [(100, Some (thread_mutex_info_init 16 100))] 100 =
     Some (thread_mutex_info_init 16 100) \<and>
   mutex_wait_f (thread_mutex_info_init 16 100) = 0 \<and>
   wait_tid_f (other_wait_info_f (thread_mutex_info_init 16 100)) = kInvalidTid \<and>
   chain (deadlock_detection [(100, Some (thread_mutex_info_init 16 100))] 100 []) = [] \<and>
   \<not> has_cycle (deadlock_detection [(100, Some (thread_mutex_info_init 16 100))] 100 [])"
proof -
  have h1: "tid_to_info [(100, Some (thread_mutex_info_init 16 100))] 100 =
     Some (thread_mutex_info_init 16 100)"
    by (simp add: tid_to_info_def)
  have h2: "mutex_wait_f (thread_mutex_info_init 16 100) = 0"
    by (simp add: thread_mutex_info_init_def)
  have h3: "wait_tid_f (other_wait_info_f (thread_mutex_info_init 16 100)) = kInvalidTid"
    by (simp add: thread_mutex_info_init_def)
  show ?thesis
    using deadlock_detection_not_waiting [OF h1 h2 h3, of "[]"] h1 h2 h3 by simp
qed

text \<open>
  The traversal on a cycle of three threads: thread 1 waits for the mutex 10 held by
  thread 2, thread 2 for the mutex 20 held by thread 3, thread 3 for the mutex 30 held by
  thread 1.
\<close>

lemma deadlock_detection_cycle_example:
  "deadlock_detection
     [(1, Some (reset_waiter 10 (push_held 16 30 7 (thread_mutex_info_init 16 1)))),
      (2, Some (reset_waiter 20 (push_held 16 10 3 (thread_mutex_info_init 16 2)))),
      (3, Some (reset_waiter 30 (push_held 16 20 5 (thread_mutex_info_init 16 3))))] 1
     [''o0'', ''o1'', ''o2'', ''o3'', ''o4'', ''o5'', ''o6'', ''o7''] =
   \<lparr>tid = 1, has_cycle = True, other_wait_reason = reason_none,
    chain = [(2, ''o3''), (3, ''o5''), (1, ''o7'')]\<rparr>"
  by (simp add: deadlock_detection_def deadlock_info_init_def tid_to_info_def
      reset_waiter_def push_held_def push_def thread_mutex_info_init_def atomic_stack_init_def
      replicate_16 kInvalidTid_def build_mutex_to_tid_def add_held_to_map_def bottom_def
      stack_size_def mutex_stack_depth_def deadlock_loop.simps wait_edge_def chain_entry_def
      invalid_def Let_def upt_conv_Cons)

end
